theory Spec2Isabelle
  imports Main "HOL-Library.AList"
begin

section \<open>Island Merge: the connectivity engine and the achievement engine\<close>

text \<open>
  A shallow embedding of package \<open>island\<close> (the union-find structure and the board) and
  of package \<open>achievements\<close> of the Go sources.

  \<^item> Go methods mutate their receiver through a pointer. Here every method takes the
    receiver's value and returns the updated value next to its result.
  \<^item> A run-time panic (slice index out of range, nil pointer dereference, \<open>make\<close> with a
    negative length) is the value \<open>Panicked\<close>.
  \<^item> \<open>Find\<close> is recursive on data it does not control; a call that recurses without end
    is the value \<open>None\<close> of the surrounding \<open>option\<close>.
  \<^item> Go's \<open>int\<close> is 64 bits wide. Coordinates and cell indices computed by the board
    are wrapped by \<open>i64\<close>, as the machine does, and so is every sum a handler of the
    achievement engine stores in the statistics. The union-find's \<open>rank\<close> and \<open>count\<close>
    fields are unbounded integers here: in every state built by \<open>NewUnionFind\<close> and the
    methods they stay between \<open>0\<close> and the number of cells.
\<close>

subsection \<open>Results of a call\<close>

datatype 'a outcome = Returned 'a | Panicked

definition bind_out :: "'a outcome \<Rightarrow> ('a \<Rightarrow> 'b outcome) \<Rightarrow> 'b outcome" where
  "bind_out m f = (case m of Panicked \<Rightarrow> Panicked | Returned a \<Rightarrow> f a)"

definition bind_run :: "'a outcome option \<Rightarrow> ('a \<Rightarrow> 'b outcome option) \<Rightarrow> 'b outcome option" where
  "bind_run m f = (case m of None \<Rightarrow> None | Some Panicked \<Rightarrow> Some Panicked | Some (Returned a) \<Rightarrow> f a)"

definition in_bounds :: "'a list \<Rightarrow> int \<Rightarrow> bool" where
  "in_bounds xs i \<longleftrightarrow> 0 \<le> i \<and> i < int (length xs)"

definition i64 :: "int \<Rightarrow> int" where
  "i64 i = (i + 2 ^ 63) mod 2 ^ 64 - 2 ^ 63"

subsection \<open>The union-find structure\<close>

record UnionFind =
  parent :: "int list"
  rank :: "int list"
  count :: int

definition NewUnionFind :: "int \<Rightarrow> UnionFind outcome" where
  "NewUnionFind n =
     (if n < 0 then Panicked
      else Returned \<lparr>parent = map int [0..<nat n], rank = replicate (nat n) 0, count = n\<rparr>)"

partial_function (option) Find :: "UnionFind \<Rightarrow> int \<Rightarrow> (int \<times> UnionFind) outcome option" where
  "Find uf x =
     (if \<not> in_bounds (parent uf) x then Some Panicked
      else if parent uf ! nat x \<noteq> x then
        Option.bind (Find uf (parent uf ! nat x))
          (\<lambda>res. case res of
              Panicked \<Rightarrow> Some Panicked
            | Returned (r, uf1) \<Rightarrow>
                if \<not> in_bounds (parent uf1) x then Some Panicked
                else let uf2 = uf1\<lparr>parent := (parent uf1)[nat x := r]\<rparr>
                     in Some (Returned (parent uf2 ! nat x, uf2)))
      else Some (Returned (parent uf ! nat x, uf)))"

declare Find.simps [code]

definition Union_uf :: "UnionFind \<Rightarrow> int \<Rightarrow> int \<Rightarrow> (bool \<times> UnionFind) outcome option" where
  "Union_uf uf x y =
     bind_run (Find uf x) (\<lambda>(rootX, uf1).
     bind_run (Find uf1 y) (\<lambda>(rootY, uf2).
       if rootX = rootY then Some (Returned (False, uf2))
       else if \<not> (in_bounds (rank uf2) rootX \<and> in_bounds (rank uf2) rootY
                 \<and> in_bounds (parent uf2) rootX \<and> in_bounds (parent uf2) rootY)
       then Some Panicked
       else
         let rX = rank uf2 ! nat rootX;
             rY = rank uf2 ! nat rootY;
             uf3 = (if rX < rY then uf2\<lparr>parent := (parent uf2)[nat rootX := rootY]\<rparr>
                    else if rX > rY then uf2\<lparr>parent := (parent uf2)[nat rootY := rootX]\<rparr>
                    else uf2\<lparr>parent := (parent uf2)[nat rootY := rootX],
                             rank := (rank uf2)[nat rootX := rX + 1]\<rparr>)
         in Some (Returned (True, uf3\<lparr>count := count uf3 - 1\<rparr>))))"

definition Connected :: "UnionFind \<Rightarrow> int \<Rightarrow> int \<Rightarrow> (bool \<times> UnionFind) outcome option" where
  "Connected uf x y =
     bind_run (Find uf x) (\<lambda>(rootX, uf1).
     bind_run (Find uf1 y) (\<lambda>(rootY, uf2).
       Some (Returned (rootX = rootY, uf2))))"

definition ComponentCount :: "UnionFind \<Rightarrow> int" where
  "ComponentCount uf = count uf"

text \<open>
  Observers used to state properties: the verdict \<open>Connected\<close> returns in a state and
  the representative \<open>Find\<close> returns there (both \<open>None\<close>-free only where the call
  returns).
\<close>

definition connected_in :: "UnionFind \<Rightarrow> int \<Rightarrow> int \<Rightarrow> bool" where
  "connected_in uf x y =
     (case Connected uf x y of Some (Returned (c, _)) \<Rightarrow> c | _ \<Rightarrow> False)"

definition find_in :: "UnionFind \<Rightarrow> int \<Rightarrow> int option" where
  "find_in uf x = (case Find uf x of Some (Returned (r, _)) \<Rightarrow> Some r | _ \<Rightarrow> None)"

text \<open>
  \<open>root_of p x r\<close>: following the parent links \<open>p\<close> from the valid index \<open>x\<close> ends in
  the self-parented index \<open>r\<close>. A union-find value is well formed when its two slices
  have the same length and every valid index leads to a root.
\<close>

inductive root_of :: "int list \<Rightarrow> int \<Rightarrow> int \<Rightarrow> bool" for p :: "int list" where
  at_root: "in_bounds p x \<Longrightarrow> p ! nat x = x \<Longrightarrow> root_of p x x"
| via_parent: "in_bounds p x \<Longrightarrow> p ! nat x \<noteq> x \<Longrightarrow> root_of p (p ! nat x) r \<Longrightarrow> root_of p x r"

definition uf_inv :: "UnionFind \<Rightarrow> bool" where
  "uf_inv uf \<longleftrightarrow>
     length (rank uf) = length (parent uf) \<and>
     (\<forall>i. in_bounds (parent uf) i \<longrightarrow> (\<exists>r. root_of (parent uf) i r))"

text \<open>The states a program can build: \<open>NewUnionFind\<close>, then any calls that return.\<close>

inductive reachable :: "UnionFind \<Rightarrow> bool" where
  r_new: "NewUnionFind n = Returned uf \<Longrightarrow> reachable uf"
| r_find: "reachable uf \<Longrightarrow> Find uf x = Some (Returned (r, uf')) \<Longrightarrow> reachable uf'"
| r_union: "reachable uf \<Longrightarrow> Union_uf uf x y = Some (Returned (b, uf')) \<Longrightarrow> reachable uf'"
| r_connected: "reachable uf \<Longrightarrow> Connected uf x y = Some (Returned (b, uf')) \<Longrightarrow> reachable uf'"

text \<open>
  The two roots a merging \<open>Union\<close> works on, as the code's three-way comparison of
  their ranks decides: the root that survives and the root that is hung under it.
\<close>

definition union_winner :: "UnionFind \<Rightarrow> int \<Rightarrow> int \<Rightarrow> int" where
  "union_winner uf rx ry = (if rank uf ! nat rx < rank uf ! nat ry then ry else rx)"

definition union_loser :: "UnionFind \<Rightarrow> int \<Rightarrow> int \<Rightarrow> int" where
  "union_loser uf rx ry = (if rank uf ! nat rx < rank uf ! nat ry then rx else ry)"

text \<open>An executable check that implies \<open>uf_inv\<close>: every index reaches a root within
  as many steps as there are indices.\<close>

fun climbs :: "nat \<Rightarrow> int list \<Rightarrow> int \<Rightarrow> bool" where
  "climbs 0 p x = False"
| "climbs (Suc k) p x = (in_bounds p x \<and> (p ! nat x = x \<or> climbs k p (p ! nat x)))"

definition uf_check :: "UnionFind \<Rightarrow> bool" where
  "uf_check uf \<longleftrightarrow>
     length (rank uf) = length (parent uf) \<and>
     list_all (\<lambda>i. climbs (length (parent uf)) (parent uf) (int i)) [0..<length (parent uf)]"

text \<open>A run of \<open>Union\<close> calls joining \<open>x\<close> with each index of a list in turn.\<close>

fun union_all :: "UnionFind \<Rightarrow> int \<Rightarrow> int list \<Rightarrow> UnionFind outcome option" where
  "union_all uf x [] = Some (Returned uf)"
| "union_all uf x (y # ys) = bind_run (Union_uf uf x y) (\<lambda>(merged, uf1). union_all uf1 x ys)"

subsection \<open>The board\<close>

type_synonym TileType = nat

definition TileEmpty :: TileType where "TileEmpty = 0"
definition TileLand :: TileType where "TileLand = 1"
definition TileSea :: TileType where "TileSea = 2"
definition TileBridge :: TileType where "TileBridge = 3"

record Tile =
  Type :: TileType

record Board =
  Width :: int
  Height :: int
  Tiles :: "Tile list"
  UnionFind :: UnionFind
  Islands :: "int list"

definition NewBoard :: "int \<Rightarrow> int \<Rightarrow> Board outcome" where
  "NewBoard width height =
     (let n = i64 (width * height) in
      if n < 0 then Panicked
      else bind_out (NewUnionFind n) (\<lambda>u.
        Returned \<lparr>Width = width, Height = height,
                  Tiles = replicate (nat n) \<lparr>Type = TileSea\<rparr>,
                  UnionFind = u, Islands = []\<rparr>))"

definition cell_index :: "Board \<Rightarrow> int \<Rightarrow> int \<Rightarrow> int" where
  "cell_index b x y = i64 (i64 (y * Width b) + x)"

definition GetTile :: "Board \<Rightarrow> int \<Rightarrow> int \<Rightarrow> Tile option outcome" where
  "GetTile b x y =
     (if x < 0 \<or> x \<ge> Width b \<or> y < 0 \<or> y \<ge> Height b then Returned None
      else if in_bounds (Tiles b) (cell_index b x y)
           then Returned (Some (Tiles b ! nat (cell_index b x y)))
           else Panicked)"

definition SetTile :: "Board \<Rightarrow> int \<Rightarrow> int \<Rightarrow> TileType \<Rightarrow> Board outcome" where
  "SetTile b x y tileType =
     (if x < 0 \<or> x \<ge> Width b \<or> y < 0 \<or> y \<ge> Height b then Returned b
      else
        let idx = cell_index b x y in
        if \<not> in_bounds (Tiles b) idx then Panicked
        else
          let b1 = b\<lparr>Tiles := (Tiles b)[nat idx := (Tiles b ! nat idx)\<lparr>Type := tileType\<rparr>]\<rparr>
          in Returned (if tileType = TileLand then b1\<lparr>Islands := Islands b1 @ [idx]\<rparr> else b1))"

definition directions :: "(int \<times> int) list" where
  "directions = [(0, 1), (1, 0), (0, -1), (-1, 0)]"

definition land_or_bridge :: "Tile option \<Rightarrow> bool" where
  "land_or_bridge neighbor =
     (case neighbor of None \<Rightarrow> False | Some t \<Rightarrow> Type t = TileLand \<or> Type t = TileBridge)"

fun has_connection :: "Board \<Rightarrow> int \<Rightarrow> int \<Rightarrow> (int \<times> int) list \<Rightarrow> bool outcome" where
  "has_connection b x y [] = Returned False"
| "has_connection b x y (dir # dirs) =
     bind_out (GetTile b (i64 (x + fst dir)) (i64 (y + snd dir))) (\<lambda>neighbor.
       if land_or_bridge neighbor then Returned True
       else has_connection b x y dirs)"

definition CanBuildBridge :: "Board \<Rightarrow> int \<Rightarrow> int \<Rightarrow> bool outcome" where
  "CanBuildBridge b x y =
     bind_out (GetTile b x y) (\<lambda>tile.
       case tile of
         None \<Rightarrow> Returned False
       | Some t \<Rightarrow> if Type t \<noteq> TileSea then Returned False
                  else has_connection b x y directions)"

fun connect_adjacent :: "Board \<Rightarrow> int \<Rightarrow> int \<Rightarrow> int \<Rightarrow> (int \<times> int) list \<Rightarrow> Board outcome option" where
  "connect_adjacent b x y idx [] = Some (Returned b)"
| "connect_adjacent b x y idx (dir # dirs) =
     (let nx = i64 (x + fst dir); ny = i64 (y + snd dir) in
      case GetTile b nx ny of
        Panicked \<Rightarrow> Some Panicked
      | Returned neighbor \<Rightarrow>
          if land_or_bridge neighbor then
            bind_run (Union_uf (UnionFind b) idx (cell_index b nx ny)) (\<lambda>(merged, u).
              connect_adjacent (b\<lparr>UnionFind := u\<rparr>) x y idx dirs)
          else connect_adjacent b x y idx dirs)"

definition BuildBridge :: "Board \<Rightarrow> int \<Rightarrow> int \<Rightarrow> Board outcome option" where
  "BuildBridge b x y =
     (case CanBuildBridge b x y of
        Panicked \<Rightarrow> Some Panicked
      | Returned ok \<Rightarrow>
          if \<not> ok then Some (Returned b)
          else (case SetTile b x y TileBridge of
                  Panicked \<Rightarrow> Some Panicked
                | Returned b1 \<Rightarrow> connect_adjacent b1 x y (cell_index b1 x y) directions))"

fun all_connected_to :: "UnionFind \<Rightarrow> int \<Rightarrow> int list \<Rightarrow> (bool \<times> UnionFind) outcome option" where
  "all_connected_to uf firstIsland [] = Some (Returned (True, uf))"
| "all_connected_to uf firstIsland (k # ks) =
     bind_run (Connected uf firstIsland k) (\<lambda>(c, uf1).
       if \<not> c then Some (Returned (False, uf1))
       else all_connected_to uf1 firstIsland ks)"

definition IsAllConnected :: "Board \<Rightarrow> (bool \<times> Board) outcome option" where
  "IsAllConnected b =
     (if length (Islands b) \<le> 1 then Some (Returned (True, b))
      else bind_run (all_connected_to (UnionFind b) (Islands b ! 0) (drop 1 (Islands b)))
             (\<lambda>(res, u). Some (Returned (res, b\<lparr>UnionFind := u\<rparr>))))"

definition SetupLevel1 :: "Board \<Rightarrow> Board outcome" where
  "SetupLevel1 b =
     (let b0 = b\<lparr>Tiles := map (\<lambda>t. t\<lparr>Type := TileSea\<rparr>) (Tiles b), Islands := []\<rparr> in
      bind_out (SetTile b0 1 1 TileLand) (\<lambda>b1.
      bind_out (SetTile b1 3 1 TileLand) (\<lambda>b2.
      bind_out (SetTile b2 2 3 TileLand) (\<lambda>b3.
      bind_out (NewUnionFind (i64 (Width b3 * Height b3))) (\<lambda>u.
        Returned (b3\<lparr>UnionFind := u\<rparr>))))))"

text \<open>
  A well-formed board: the tile slice has one entry per cell (a Go slice is shorter than
  \<open>2^63\<close>), the union-find structure is well formed and has one index per cell, and the
  island registry holds cell indices.
\<close>

definition grid_ok :: "Board \<Rightarrow> bool" where
  "grid_ok b \<longleftrightarrow> int (length (Tiles b)) = Width b * Height b \<and> Width b * Height b < 2 ^ 63"

definition board_inv :: "Board \<Rightarrow> bool" where
  "board_inv b \<longleftrightarrow>
     grid_ok b \<and>
     uf_inv (UnionFind b) \<and>
     length (parent (UnionFind b)) = length (Tiles b) \<and>
     list_all (in_bounds (Tiles b)) (Islands b)"

definition in_grid :: "Board \<Rightarrow> int \<Rightarrow> int \<Rightarrow> bool" where
  "in_grid b x y \<longleftrightarrow> 0 \<le> x \<and> x < Width b \<and> 0 \<le> y \<and> y < Height b"

definition tile_type_at :: "Board \<Rightarrow> int \<Rightarrow> int \<Rightarrow> TileType" where
  "tile_type_at b x y = Type (Tiles b ! nat (y * Width b + x))"

definition count_kind :: "Board \<Rightarrow> TileType \<Rightarrow> nat" where
  "count_kind b k = length (filter (\<lambda>t. Type t = k) (Tiles b))"

text \<open>
  The cell indices of the neighbours of \<open>(x, y)\<close>, in the given directions, that lie in
  the grid and hold \<open>Land\<close> or \<open>Bridge\<close>.
\<close>

definition is_link :: "Board \<Rightarrow> int \<Rightarrow> int \<Rightarrow> bool" where
  "is_link b x y \<longleftrightarrow>
     in_grid b x y \<and> (tile_type_at b x y = TileLand \<or> tile_type_at b x y = TileBridge)"

definition linked_neighbors :: "Board \<Rightarrow> int \<Rightarrow> int \<Rightarrow> (int \<times> int) list \<Rightarrow> int list" where
  "linked_neighbors b x y dirs =
     map (\<lambda>d. (y + snd d) * Width b + (x + fst d))
       (filter (\<lambda>d. is_link b (x + fst d) (y + snd d)) dirs)"

text \<open>
  The scenario of level 1: a fresh 5 by 5 board set up by \<open>SetupLevel1\<close>, then a sequence
  of \<open>BuildBridge\<close> calls. \<open>island_components\<close> counts the distinct components among
  the cells of the island registry.
\<close>

fun build_all :: "Board \<Rightarrow> (int \<times> int) list \<Rightarrow> Board outcome option" where
  "build_all b [] = Some (Returned b)"
| "build_all b (m # ms) = bind_run (BuildBridge b (fst m) (snd m)) (\<lambda>b1. build_all b1 ms)"

definition level1_after :: "(int \<times> int) list \<Rightarrow> Board outcome option" where
  "level1_after moves =
     bind_run (Some (bind_out (NewBoard 5 5) SetupLevel1)) (\<lambda>b. build_all b moves)"

definition component_count_after :: "(int \<times> int) list \<Rightarrow> int outcome option" where
  "component_count_after moves =
     bind_run (level1_after moves) (\<lambda>b. Some (Returned (ComponentCount (UnionFind b))))"

definition island_components :: "Board \<Rightarrow> nat" where
  "island_components b = card (find_in (UnionFind b) ` set (Islands b))"

subsection \<open>Achievements\<close>

text \<open>
  \<open>AchievementType\<close> is a Go \<open>int\<close> with ten named constants. The display fields of an
  achievement (name, description, icon) are never read by the engine and are left out.
  The map from ids to achievement pointers is an association list with one entry per
  key (\<open>AList.update\<close> replaces the entry of a key in place); its entries are the
  non-nil pointers \<open>initializeAchievements\<close> creates. A point in time is a number of
  nanoseconds; a \<open>time.Duration\<close> is a number of nanoseconds as well. The counters of
  the statistics are Go \<open>int\<close>s: every \<open>++\<close> and \<open>+=\<close> of a handler wraps at 64 bits.
  Every handler takes the clock reading \<open>now\<close> of its call. A listener is a callback; here it is a
  label, and calling it with an achievement appends the pair to \<open>delivered\<close>.
\<close>

type_synonym AchievementType = int

definition AchievementFirstWin :: AchievementType where "AchievementFirstWin = 0"
definition AchievementSpeedrun :: AchievementType where "AchievementSpeedrun = 1"
definition AchievementEfficient :: AchievementType where "AchievementEfficient = 2"
definition AchievementTimeAttackWin :: AchievementType where "AchievementTimeAttackWin = 3"
definition AchievementPerfectGame :: AchievementType where "AchievementPerfectGame = 4"
definition AchievementBridgeBuilder :: AchievementType where "AchievementBridgeBuilder = 5"
definition AchievementIslandHopper :: AchievementType where "AchievementIslandHopper = 6"
definition AchievementLevelCreator :: AchievementType where "AchievementLevelCreator = 7"
definition AchievementDedicated :: AchievementType where "AchievementDedicated = 8"
definition AchievementMaster :: AchievementType where "AchievementMaster = 9"

record Achievement =
  ID :: AchievementType
  Unlocked :: bool
  UnlockedAt :: "int option"
  Progress :: int
  Target :: int
  Hidden :: bool

record GameStatistics =
  GamesPlayed :: int
  GamesWon :: int
  TotalMoves :: int
  TotalTime :: int
  BestTime :: int
  FewestMoves :: int
  BridgesBuilt :: int
  TimeAttackWins :: int
  PerfectGames :: int
  LevelsCreated :: int
  PlayStreak :: int
  LastPlayDate :: "int option"

record AchievementSystem =
  achievements :: "(AchievementType \<times> Achievement) list"
  statistics :: GameStatistics
  listeners :: "nat list"
  delivered :: "(nat \<times> Achievement) list"

definition new_achievement :: "AchievementType \<Rightarrow> int \<Rightarrow> bool \<Rightarrow> Achievement" where
  "new_achievement i t h =
     \<lparr>ID = i, Unlocked = False, UnlockedAt = None, Progress = 0, Target = t, Hidden = h\<rparr>"

definition initializeAchievements :: "AchievementSystem \<Rightarrow> AchievementSystem" where
  "initializeAchievements sys =
     foldl (\<lambda>s a. s\<lparr>achievements := AList.update (ID a) a (achievements s)\<rparr>) sys
       [new_achievement AchievementFirstWin 1 False,
        new_achievement AchievementSpeedrun 1 False,
        new_achievement AchievementEfficient 1 False,
        new_achievement AchievementTimeAttackWin 5 False,
        new_achievement AchievementPerfectGame 10 False,
        new_achievement AchievementBridgeBuilder 100 False,
        new_achievement AchievementIslandHopper 25 False,
        new_achievement AchievementLevelCreator 5 False,
        new_achievement AchievementDedicated 7 False,
        new_achievement AchievementMaster 9 True]"

definition NewAchievementSystem :: AchievementSystem where
  "NewAchievementSystem =
     initializeAchievements
       \<lparr>achievements = [],
        statistics = \<lparr>GamesPlayed = 0, GamesWon = 0, TotalMoves = 0, TotalTime = 0, BestTime = 0,
                      FewestMoves = 999, BridgesBuilt = 0, TimeAttackWins = 0, PerfectGames = 0,
                      LevelsCreated = 0, PlayStreak = 0, LastPlayDate = None\<rparr>,
        listeners = [], delivered = []\<rparr>"

definition OnAchievementUnlocked :: "AchievementSystem \<Rightarrow> nat \<Rightarrow> AchievementSystem" where
  "OnAchievementUnlocked sys callback = sys\<lparr>listeners := listeners sys @ [callback]\<rparr>"

definition notifyListeners :: "AchievementSystem \<Rightarrow> Achievement \<Rightarrow> AchievementSystem" where
  "notifyListeners sys achievement =
     sys\<lparr>delivered := delivered sys @ map (\<lambda>callback. (callback, achievement)) (listeners sys)\<rparr>"

definition locked_entries :: "AchievementSystem \<Rightarrow> nat" where
  "locked_entries sys = length (filter (\<lambda>e. \<not> Unlocked (snd e)) (achievements sys))"

function checkAchievement :: "AchievementSystem \<Rightarrow> int \<Rightarrow> AchievementType \<Rightarrow> AchievementSystem"
  and checkMasterAchievement :: "AchievementSystem \<Rightarrow> int \<Rightarrow> AchievementSystem" where
  "checkAchievement sys now i =
     (case map_of (achievements sys) i of
        None \<Rightarrow> sys
      | Some achievement \<Rightarrow>
          if Unlocked achievement then sys
          else if Progress achievement \<ge> Target achievement then
            checkMasterAchievement
              (notifyListeners
                 (sys\<lparr>achievements :=
                    AList.update i (achievement\<lparr>Unlocked := True, UnlockedAt := Some now\<rparr>) (achievements sys)\<rparr>)
                 (achievement\<lparr>Unlocked := True, UnlockedAt := Some now\<rparr>))
              now
          else sys)"
| "checkMasterAchievement sys now =
     (case map_of (achievements sys) AchievementMaster of
        None \<Rightarrow> sys
      | Some master \<Rightarrow>
          if \<not> Unlocked master then
            checkAchievement
              (sys\<lparr>achievements :=
                 AList.update AchievementMaster
                   (master\<lparr>Progress :=
                      int (length (filter (\<lambda>e. fst e \<noteq> AchievementMaster \<and> Unlocked (snd e)) (achievements sys)))\<rparr>)
                   (achievements sys)\<rparr>)
              now AchievementMaster
          else sys)"
  by pat_completeness auto

termination
proof (relation "measure (\<lambda>v. case v of Inl (sys, now, i) \<Rightarrow> 2 * locked_entries sys
                                         | Inr (sys, now) \<Rightarrow> 2 * locked_entries sys + 1)")
  have unlock: "length (filter (\<lambda>e. \<not> Unlocked (snd e)) (AList.update i a' al))
                  < length (filter (\<lambda>e. \<not> Unlocked (snd e)) al)"
    if "map_of al i = Some a" "\<not> Unlocked a" "Unlocked a'"
    for al :: "(AchievementType \<times> Achievement) list" and i a a'
    using that
  proof (induction al)
    case Nil
    then show ?case by simp
  next
    case (Cons e al)
    then show ?case by (cases e) (auto split: if_splits)
  qed
  have same: "length (filter (\<lambda>e. \<not> Unlocked (snd e)) (AList.update i a' al))
                = length (filter (\<lambda>e. \<not> Unlocked (snd e)) al)"
    if "map_of al i = Some a" "Unlocked a' = Unlocked a"
    for al :: "(AchievementType \<times> Achievement) list" and i a a'
    using that
  proof (induction al)
    case Nil
    then show ?case by simp
  next
    case (Cons e al)
    then show ?case by (cases e) (auto split: if_splits)
  qed
  show "wf (measure (\<lambda>v. case v of Inl (sys, now, i) \<Rightarrow> 2 * locked_entries sys
                                   | Inr (sys, now) \<Rightarrow> 2 * locked_entries sys + 1))"
    by simp
  show "(Inr (notifyListeners
               (sys\<lparr>achievements :=
                  AList.update i (a\<lparr>Unlocked := True, UnlockedAt := Some now\<rparr>) (achievements sys)\<rparr>)
               (a\<lparr>Unlocked := True, UnlockedAt := Some now\<rparr>), now),
          Inl (sys, now, i))
        \<in> measure (\<lambda>v. case v of Inl (sys, now, i) \<Rightarrow> 2 * locked_entries sys
                                 | Inr (sys, now) \<Rightarrow> 2 * locked_entries sys + 1)"
    if "map_of (achievements sys) i = Some a" "\<not> Unlocked a"
    for sys now i a
    using unlock [OF that, of "a\<lparr>Unlocked := True, UnlockedAt := Some now\<rparr>"]
    by (simp add: locked_entries_def notifyListeners_def)
  show "(Inl (sys\<lparr>achievements :=
                 AList.update AchievementMaster
                   (m\<lparr>Progress :=
                      int (length (filter (\<lambda>e. fst e \<noteq> AchievementMaster \<and> Unlocked (snd e)) (achievements sys)))\<rparr>)
                   (achievements sys)\<rparr>, now, AchievementMaster),
          Inr (sys, now))
        \<in> measure (\<lambda>v. case v of Inl (sys, now, i) \<Rightarrow> 2 * locked_entries sys
                                 | Inr (sys, now) \<Rightarrow> 2 * locked_entries sys + 1)"
    if "map_of (achievements sys) AchievementMaster = Some m"
    for sys now m
    using same [OF that, of "m\<lparr>Progress :=
                      int (length (filter (\<lambda>e. fst e \<noteq> AchievementMaster \<and> Unlocked (snd e)) (achievements sys)))\<rparr>"]
    by (simp add: locked_entries_def)
qed

declare checkAchievement.simps [simp del] checkMasterAchievement.simps [simp del]

definition set_progress :: "AchievementSystem \<Rightarrow> AchievementType \<Rightarrow> int \<Rightarrow> AchievementSystem outcome" where
  "set_progress sys i v =
     (case map_of (achievements sys) i of
        None \<Rightarrow> Panicked
      | Some achievement \<Rightarrow>
          Returned (sys\<lparr>achievements := AList.update i (achievement\<lparr>Progress := v\<rparr>) (achievements sys)\<rparr>))"

definition day_ns :: int where
  "day_ns = 24 * 3600 * 1000000000"

definition time_sub :: "int \<Rightarrow> int \<Rightarrow> int" where
  "time_sub t u = max (- (2 ^ 63)) (min (2 ^ 63 - 1) (t - u))"

definition daysSince :: "int \<Rightarrow> int \<Rightarrow> int" where
  "daysSince lastPlay now =
     (let d = time_sub now lastPlay in if 0 \<le> d then d div day_ns else - ((- d) div day_ns))"

definition OnGameStart :: "AchievementSystem \<Rightarrow> int \<Rightarrow> AchievementSystem outcome" where
  "OnGameStart sys now =
     (let st = statistics sys;
          st1 = st\<lparr>GamesPlayed := i64 (GamesPlayed st + 1)\<rparr>;
          st2 = (case LastPlayDate st1 of
                   Some lastPlay \<Rightarrow>
                     if daysSince lastPlay now = 1 then st1\<lparr>PlayStreak := i64 (PlayStreak st1 + 1)\<rparr>
                     else if daysSince lastPlay now > 1 then st1\<lparr>PlayStreak := 1\<rparr>
                     else st1
                 | None \<Rightarrow> st1\<lparr>PlayStreak := 1\<rparr>);
          st3 = st2\<lparr>LastPlayDate := Some now\<rparr>
      in bind_out (set_progress (sys\<lparr>statistics := st3\<rparr>) AchievementDedicated (PlayStreak st3))
           (\<lambda>sys1. Returned (checkAchievement sys1 now AchievementDedicated)))"

definition min_go :: "int \<Rightarrow> int \<Rightarrow> int" where
  "min_go a b = (if a < b then a else b)"

definition OnGameWin ::
  "AchievementSystem \<Rightarrow> int \<Rightarrow> int \<Rightarrow> int \<Rightarrow> bool \<Rightarrow> bool \<Rightarrow> AchievementSystem outcome" where
  "OnGameWin sys now moves gameTime isTimeAttack isPerfect =
     (let st = statistics sys;
          st1 = st\<lparr>GamesWon := i64 (GamesWon st + 1), TotalMoves := i64 (TotalMoves st + moves),
                   TotalTime := i64 (TotalTime st + gameTime)\<rparr>;
          st2 = (if BestTime st1 = 0 \<or> gameTime < BestTime st1 then st1\<lparr>BestTime := gameTime\<rparr> else st1);
          st3 = (if moves < FewestMoves st2 then st2\<lparr>FewestMoves := moves\<rparr> else st2);
          sys1 = sys\<lparr>statistics := st3\<rparr>
      in
      bind_out
        (if isTimeAttack then
           (let n = i64 (TimeAttackWins (statistics sys1) + 1) in
            bind_out (set_progress (sys1\<lparr>statistics := (statistics sys1)\<lparr>TimeAttackWins := n\<rparr>\<rparr>)
                        AchievementTimeAttackWin n)
              (\<lambda>s. Returned (checkAchievement s now AchievementTimeAttackWin)))
         else Returned sys1)
        (\<lambda>sys2.
      bind_out
        (if isPerfect then
           (let n = i64 (PerfectGames (statistics sys2) + 1) in
            bind_out (set_progress (sys2\<lparr>statistics := (statistics sys2)\<lparr>PerfectGames := n\<rparr>\<rparr>)
                        AchievementPerfectGame n)
              (\<lambda>s. Returned (checkAchievement (checkAchievement s now AchievementPerfectGame)
                                now AchievementEfficient)))
         else Returned sys2)
        (\<lambda>sys3.
      bind_out (set_progress sys3 AchievementFirstWin (min_go 1 (GamesWon (statistics sys3))))
        (\<lambda>sys4.
      bind_out (set_progress (checkAchievement sys4 now AchievementFirstWin) AchievementIslandHopper
                  (GamesWon (statistics sys4)))
        (\<lambda>sys5.
      (let sys6 = checkAchievement sys5 now AchievementIslandHopper in
       if gameTime < 30 * 1000000000 then
         bind_out (set_progress sys6 AchievementSpeedrun 1)
           (\<lambda>s. Returned (checkAchievement s now AchievementSpeedrun))
       else Returned sys6))))))"

definition OnBridgeBuilt :: "AchievementSystem \<Rightarrow> int \<Rightarrow> AchievementSystem outcome" where
  "OnBridgeBuilt sys now =
     (let n = i64 (BridgesBuilt (statistics sys) + 1) in
      bind_out (set_progress (sys\<lparr>statistics := (statistics sys)\<lparr>BridgesBuilt := n\<rparr>\<rparr>)
                  AchievementBridgeBuilder n)
        (\<lambda>s. Returned (checkAchievement s now AchievementBridgeBuilder)))"

definition OnLevelCreated :: "AchievementSystem \<Rightarrow> int \<Rightarrow> AchievementSystem outcome" where
  "OnLevelCreated sys now =
     (let n = i64 (LevelsCreated (statistics sys) + 1) in
      bind_out (set_progress (sys\<lparr>statistics := (statistics sys)\<lparr>LevelsCreated := n\<rparr>\<rparr>)
                  AchievementLevelCreator n)
        (\<lambda>s. Returned (checkAchievement s now AchievementLevelCreator)))"

text \<open>A session: a sequence of handler calls, each with its arguments and clock reading.\<close>

datatype event =
  GameStart int
  | GameWin int int int bool bool
  | BridgeBuilt int
  | LevelCreated int

fun handle_event :: "AchievementSystem \<Rightarrow> event \<Rightarrow> AchievementSystem outcome" where
  "handle_event sys (GameStart now) = OnGameStart sys now"
| "handle_event sys (GameWin now moves gameTime isTimeAttack isPerfect) =
     OnGameWin sys now moves gameTime isTimeAttack isPerfect"
| "handle_event sys (BridgeBuilt now) = OnBridgeBuilt sys now"
| "handle_event sys (LevelCreated now) = OnLevelCreated sys now"

fun run_events :: "AchievementSystem \<Rightarrow> event list \<Rightarrow> AchievementSystem outcome" where
  "run_events sys [] = Returned sys"
| "run_events sys (e # es) = bind_out (handle_event sys e) (\<lambda>sys1. run_events sys1 es)"

text \<open>
  Observers and the session invariant used to state the properties of the achievement
  engine. \<open>deliveries sys i\<close> lists, in call order, the listeners that have been called
  with the achievement of id \<open>i\<close>. \<open>unlocked_count\<close> is the count \<open>checkMasterAchievement\<close>
  takes. \<open>stat_bound\<close> names, for the ids whose progress is copied from a counter, the
  value that counter gives.
\<close>

definition deliveries :: "AchievementSystem \<Rightarrow> AchievementType \<Rightarrow> nat list" where
  "deliveries sys i = map fst (filter (\<lambda>e. ID (snd e) = i) (delivered sys))"

definition unlocked_count :: "(AchievementType \<times> Achievement) list \<Rightarrow> int" where
  "unlocked_count al = int (length (filter (\<lambda>e. fst e \<noteq> AchievementMaster \<and> Unlocked (snd e)) al))"

definition stat_bound :: "GameStatistics \<Rightarrow> AchievementType \<Rightarrow> int option" where
  "stat_bound st i =
     (if i = AchievementFirstWin then Some 1
      else if i = AchievementSpeedrun then Some 1
      else if i = AchievementTimeAttackWin then Some (TimeAttackWins st)
      else if i = AchievementPerfectGame then Some (PerfectGames st)
      else if i = AchievementBridgeBuilder then Some (BridgesBuilt st)
      else if i = AchievementIslandHopper then Some (GamesWon st)
      else if i = AchievementLevelCreator then Some (LevelsCreated st)
      else None)"

definition handled_ids :: "AchievementType list" where
  "handled_ids =
     [AchievementFirstWin, AchievementSpeedrun, AchievementTimeAttackWin, AchievementPerfectGame,
      AchievementBridgeBuilder, AchievementIslandHopper, AchievementLevelCreator,
      AchievementDedicated]"

text \<open>
  The invariant of a session: one entry per key, each stored under its own id; an
  achievement whose progress has reached its target is unlocked; the progress copied
  from a counter does not exceed that counter; a locked meta-achievement's progress does
  not exceed the number of unlocked other achievements; the entries the handlers write
  to exist; the win counter is not negative. \<open>NewAchievementSystem\<close> satisfies it.
\<close>

definition sys_ok :: "AchievementSystem \<Rightarrow> bool" where
  "sys_ok sys \<longleftrightarrow>
     distinct (map fst (achievements sys)) \<and>
     list_all (\<lambda>e. ID (snd e) = fst e) (achievements sys) \<and>
     list_all (\<lambda>e. Unlocked (snd e) \<or> Progress (snd e) < Target (snd e)) (achievements sys) \<and>
     list_all (\<lambda>e. case stat_bound (statistics sys) (fst e) of
                      None \<Rightarrow> True | Some b \<Rightarrow> Progress (snd e) \<le> b) (achievements sys) \<and>
     list_all (\<lambda>e. fst e \<noteq> AchievementMaster \<or> Unlocked (snd e)
                    \<or> Progress (snd e) \<le> unlocked_count (achievements sys)) (achievements sys) \<and>
     list_all (\<lambda>i. map_of (achievements sys) i \<noteq> None) handled_ids \<and>
     0 \<le> GamesWon (statistics sys)"

text \<open>
  Predicates for reasoning about \<open>checkAchievement\<close>: the part of the invariant it
  relies on (\<open>keyed\<close>), the per-id rule that progress at or past the target means
  unlocked (\<open>settled\<close>), and the relation between the states before and after a check
  (\<open>check_rel\<close>): statistics and listeners are kept; an unlocked entry is kept as it
  is; only the meta-achievement's progress may change, and it does not drop; an entry
  that becomes unlocked has reached its target, and exactly then every listener is
  called once, in registration order.
\<close>

definition keyed :: "AchievementSystem \<Rightarrow> bool" where
  "keyed sys \<longleftrightarrow>
     distinct (map fst (achievements sys)) \<and>
     (\<forall>i a. map_of (achievements sys) i = Some a \<longrightarrow>
        ID a = i \<and> (i = AchievementMaster \<longrightarrow>
                      Unlocked a \<or> Progress a \<le> unlocked_count (achievements sys)))"

definition settled :: "AchievementSystem \<Rightarrow> AchievementType \<Rightarrow> bool" where
  "settled sys i \<longleftrightarrow>
     (\<forall>a. map_of (achievements sys) i = Some a \<longrightarrow> Unlocked a \<or> Progress a < Target a)"

definition check_rel :: "AchievementSystem \<Rightarrow> AchievementSystem \<Rightarrow> bool" where
  "check_rel s s' \<longleftrightarrow>
     listeners s' = listeners s \<and> statistics s' = statistics s \<and>
     dom (map_of (achievements s')) = dom (map_of (achievements s)) \<and>
     (\<forall>j a. map_of (achievements s) j = Some a \<longrightarrow>
        (\<exists>a'. map_of (achievements s') j = Some a' \<and> ID a' = ID a \<and> Target a' = Target a
           \<and> (Unlocked a \<longrightarrow> a' = a)
           \<and> (j \<noteq> AchievementMaster \<longrightarrow> Progress a' = Progress a)
           \<and> Progress a \<le> Progress a'
           \<and> (\<not> Unlocked a \<and> Unlocked a' \<longrightarrow> Target a \<le> Progress a')
           \<and> deliveries s' j = deliveries s j
                @ (if \<not> Unlocked a \<and> Unlocked a' then listeners s else [])))"

text \<open>
  The relation between two states of a session, one later than the other: targets and
  listeners are kept, unlocked stays unlocked, the progress of every achievement but the
  streak-based one has not dropped, an achievement other than the streak-based one that
  became unlocked has reached its target, and the listeners have been called for an id
  exactly once each, in registration order, if that id became unlocked in between and
  not at all otherwise.
\<close>

definition grows :: "AchievementSystem \<Rightarrow> AchievementSystem \<Rightarrow> bool" where
  "grows s s' \<longleftrightarrow>
     listeners s' = listeners s \<and>
     dom (map_of (achievements s')) = dom (map_of (achievements s)) \<and>
     (\<forall>j a. map_of (achievements s) j = Some a \<longrightarrow>
        (\<exists>a'. map_of (achievements s') j = Some a' \<and> Target a' = Target a
           \<and> (Unlocked a \<longrightarrow> Unlocked a')
           \<and> (j \<noteq> AchievementDedicated \<longrightarrow> Progress a \<le> Progress a')
           \<and> (j \<noteq> AchievementDedicated \<and> \<not> Unlocked a \<and> Unlocked a' \<longrightarrow> Target a \<le> Progress a')
           \<and> deliveries s' j = deliveries s j
                @ (if \<not> Unlocked a \<and> Unlocked a' then listeners s else [])))"

text \<open>
  \<open>counters_fit st n\<close>: the counters an achievement's progress is copied from hold Go
  \<open>int\<close>s and can be raised \<open>n\<close> more times without wrapping. \<open>keeps s s' j\<close>: the entry of
  id \<open>j\<close> has the same flag and progress in both states. \<open>ded_rel s s'\<close>: what one
  handler call does to the streak-based achievement: it becomes unlocked only with its
  progress at or past the target, and its progress is left alone or is the play streak.
\<close>

definition counters_fit :: "GameStatistics \<Rightarrow> nat \<Rightarrow> bool" where
  "counters_fit st n \<longleftrightarrow>
     list_all (\<lambda>c. - (2 ^ 63) \<le> c \<and> c + int n < 2 ^ 63)
       [GamesWon st, TimeAttackWins st, PerfectGames st, BridgesBuilt st, LevelsCreated st]"

definition keeps :: "AchievementSystem \<Rightarrow> AchievementSystem \<Rightarrow> AchievementType \<Rightarrow> bool" where
  "keeps s s' j \<longleftrightarrow>
     (\<forall>a. map_of (achievements s) j = Some a \<longrightarrow>
        (\<exists>a'. map_of (achievements s') j = Some a' \<and> Unlocked a' = Unlocked a
           \<and> Progress a' = Progress a))"

definition ded_rel :: "AchievementSystem \<Rightarrow> AchievementSystem \<Rightarrow> bool" where
  "ded_rel s s' \<longleftrightarrow>
     (\<forall>a. map_of (achievements s) AchievementDedicated = Some a \<longrightarrow>
        (\<exists>a'. map_of (achievements s') AchievementDedicated = Some a'
           \<and> (\<not> Unlocked a \<and> Unlocked a' \<longrightarrow> Target a \<le> Progress a')
           \<and> (Progress a' = Progress a \<or> Progress a' = PlayStreak (statistics s'))))"

text \<open>Observers of a session that starts from \<open>NewAchievementSystem\<close>.\<close>

definition progress_after :: "event list \<Rightarrow> AchievementType \<Rightarrow> int option" where
  "progress_after evs i =
     (case run_events NewAchievementSystem evs of
        Panicked \<Rightarrow> None
      | Returned sys \<Rightarrow> map_option Progress (map_of (achievements sys) i))"

definition unlocked_after :: "event list \<Rightarrow> AchievementType \<Rightarrow> bool option" where
  "unlocked_after evs i =
     (case run_events NewAchievementSystem evs of
        Panicked \<Rightarrow> None
      | Returned sys \<Rightarrow> map_option Unlocked (map_of (achievements sys) i))"

definition streak_after :: "event list \<Rightarrow> int option" where
  "streak_after evs =
     (case run_events NewAchievementSystem evs of
        Panicked \<Rightarrow> None
      | Returned sys \<Rightarrow> Some (PlayStreak (statistics sys)))"

text \<open>The calendar day (UTC) of a point in time given in nanoseconds since the epoch.\<close>

definition calendar_day :: "int \<Rightarrow> int" where
  "calendar_day t = t div day_ns"

definition hour_ns :: int where
  "hour_ns = 3600 * 1000000000"

section \<open>Properties\<close>

subsection \<open>Basic facts\<close>

lemma bind_run_simps [simp]:
  "bind_run None f = None"
  "bind_run (Some Panicked) f = Some Panicked"
  "bind_run (Some (Returned a)) f = f a"
  by (simp_all add: bind_run_def)

lemma bind_out_simps [simp]:
  "bind_out Panicked f = Panicked"
  "bind_out (Returned a) f = f a"
  by (simp_all add: bind_out_def)

lemma i64_id: "- (2 ^ 63) \<le> i \<Longrightarrow> i < 2 ^ 63 \<Longrightarrow> i64 i = i"
  by (simp add: i64_def)

lemma in_bounds_update [simp]: "in_bounds (p[i := v]) x = in_bounds p x"
  by (simp add: in_bounds_def)

lemma in_bounds_length: "length q = length p \<Longrightarrow> in_bounds q x = in_bounds p x"
  by (simp add: in_bounds_def)

lemma nth_update_in_bounds:
  "in_bounds p a \<Longrightarrow> in_bounds p x \<Longrightarrow> p[nat x := v] ! nat a = (if a = x then v else p ! nat a)"
  by (auto simp: in_bounds_def nth_list_update)

subsection \<open>Parent chains\<close>

lemma root_of_in_bounds: "root_of p x r \<Longrightarrow> in_bounds p x"
  by (erule root_of.cases) auto

lemma root_of_is_root: "root_of p x r \<Longrightarrow> in_bounds p r \<and> p ! nat r = r"
  by (induction rule: root_of.induct) auto

lemma root_of_det: "root_of p x r \<Longrightarrow> root_of p x r' \<Longrightarrow> r = r'"
proof (induction arbitrary: r' rule: root_of.induct)
  case (at_root x)
  note h = at_root.hyps
  from at_root.prems show ?case
  proof (cases rule: root_of.cases)
    case at_root
    then show ?thesis by simp
  next
    case via_parent
    with h show ?thesis by simp
  qed
next
  case (via_parent x r)
  note h = via_parent.hyps and ih = via_parent.IH
  from via_parent.prems show ?case
  proof (cases rule: root_of.cases)
    case at_root
    with h show ?thesis by simp
  next
    case via_parent
    then show ?thesis using ih by simp
  qed
qed

lemma root_of_self: "root_of p x r \<Longrightarrow> root_of p r r"
  using root_of_is_root [of p x r] by (auto intro: root_of.at_root)

text \<open>Path compression: pointing \<open>x\<close> at its own root keeps the root of every index.\<close>

lemma root_of_compress:
  assumes xr: "root_of p x r" and as: "root_of p a s"
  shows "root_of (p[nat x := r]) a s"
  using as
proof (induction rule: root_of.induct)
  case (at_root a)
  have bx: "in_bounds p x" using xr by (rule root_of_in_bounds)
  show ?case
  proof (cases "a = x")
    case True
    have "root_of p x x" using at_root True by (simp add: root_of.at_root)
    then have "r = x" using xr root_of_det by blast
    then have "p[nat x := r] ! nat a = a" using at_root True bx
      by (simp add: nth_update_in_bounds)
    then show ?thesis using at_root.hyps by (simp add: root_of.at_root)
  next
    case False
    then have "p[nat x := r] ! nat a = a" using at_root bx
      by (simp add: nth_update_in_bounds)
    then show ?thesis using at_root.hyps by (simp add: root_of.at_root)
  qed
next
  case (via_parent a s)
  have bx: "in_bounds p x" using xr by (rule root_of_in_bounds)
  show ?case
  proof (cases "a = x")
    case True
    have "root_of p x s" using via_parent.hyps True by (simp add: root_of.via_parent)
    then have sr: "s = r" using xr root_of_det by blast
    have rr: "in_bounds p r" "p ! nat r = r" using root_of_is_root [OF xr] by auto
    have ne: "r \<noteq> x" using rr via_parent.hyps True by auto
    have "p[nat x := r] ! nat r = r" using rr bx ne by (simp add: nth_update_in_bounds)
    then have r1: "root_of (p[nat x := r]) r r" using rr by (simp add: root_of.at_root)
    have "p[nat x := r] ! nat x = r" using bx by (simp add: nth_update_in_bounds)
    then show ?thesis using True sr bx ne r1
      by (simp add: root_of.via_parent)
  next
    case False
    then have "p[nat x := r] ! nat a = p ! nat a" using via_parent.hyps bx
      by (simp add: nth_update_in_bounds)
    then show ?thesis using via_parent.hyps via_parent.IH
      by (simp add: root_of.via_parent)
  qed
qed

text \<open>Linking the root \<open>rx\<close> under the root \<open>ry\<close> sends every index of root \<open>rx\<close> to \<open>ry\<close>.\<close>

lemma root_of_link:
  assumes rx: "in_bounds p rx" "p ! nat rx = rx"
    and ry: "in_bounds p ry" "p ! nat ry = ry"
    and ne: "rx \<noteq> ry"
    and as: "root_of p a s"
  shows "root_of (p[nat rx := ry]) a (if s = rx then ry else s)"
  using as
proof (induction rule: root_of.induct)
  case (at_root a)
  show ?case
  proof (cases "a = rx")
    case True
    have "p[nat rx := ry] ! nat ry = ry" using rx ry ne by (simp add: nth_update_in_bounds)
    then have r1: "root_of (p[nat rx := ry]) ry ry" using ry by (simp add: root_of.at_root)
    have "p[nat rx := ry] ! nat rx = ry" using rx by (simp add: nth_update_in_bounds)
    then show ?thesis using True rx ne r1 by (simp add: root_of.via_parent)
  next
    case False
    then have "p[nat rx := ry] ! nat a = a" using at_root rx by (simp add: nth_update_in_bounds)
    then show ?thesis using False at_root.hyps by (simp add: root_of.at_root)
  qed
next
  case (via_parent a s)
  have "a \<noteq> rx" using via_parent.hyps rx by auto
  then have "p[nat rx := ry] ! nat a = p ! nat a" using via_parent.hyps rx
    by (simp add: nth_update_in_bounds)
  then show ?case using via_parent.hyps via_parent.IH by (simp add: root_of.via_parent)
qed

subsection \<open>Find\<close>

lemma Find_root_of:
  assumes "root_of (parent uf) x r"
  shows "\<exists>uf'. Find uf x = Some (Returned (r, uf')) \<and> rank uf' = rank uf \<and> count uf' = count uf
           \<and> length (parent uf') = length (parent uf)
           \<and> (\<forall>a s. root_of (parent uf) a s \<longrightarrow> root_of (parent uf') a s)"
  using assms
proof (induction rule: root_of.induct)
  case (at_root x)
  then have "Find uf x = Some (Returned (x, uf))" by (subst Find.simps) simp
  then show ?case by simp
next
  case (via_parent x r)
  then obtain uf1 where f1: "Find uf (parent uf ! nat x) = Some (Returned (r, uf1))"
    and k1: "rank uf1 = rank uf" "count uf1 = count uf" "length (parent uf1) = length (parent uf)"
    and p1: "\<forall>a s. root_of (parent uf) a s \<longrightarrow> root_of (parent uf1) a s"
    by blast
  have b1: "in_bounds (parent uf1) x" using via_parent.hyps k1 by (simp add: in_bounds_def)
  then have n1: "nat x < length (parent uf1)" by (auto simp: in_bounds_def)
  let ?uf2 = "uf1\<lparr>parent := (parent uf1)[nat x := r]\<rparr>"
  have xr: "root_of (parent uf) x r" using via_parent.hyps by (simp add: root_of.via_parent)
  have xr1: "root_of (parent uf1) x r" using xr p1 by blast
  have fx: "Find uf x = Some (Returned (r, ?uf2))"
    using via_parent.hyps(1,2) f1 b1 n1 by (subst Find.simps) simp
  have "\<forall>a s. root_of (parent uf) a s \<longrightarrow> root_of (parent ?uf2) a s"
    using p1 root_of_compress [OF xr1] by simp
  then show ?case using fx k1 by simp
qed


text \<open>
  On a well-formed structure \<open>Find\<close> returns, for every valid index, the root of that
  index; the state it leaves is well formed and has the same roots, ranks and count.
\<close>

lemma Find_inv:
  assumes inv: "uf_inv uf" and bx: "in_bounds (parent uf) x"
  shows "\<exists>r uf'. Find uf x = Some (Returned (r, uf')) \<and> root_of (parent uf) x r
           \<and> uf_inv uf' \<and> rank uf' = rank uf \<and> count uf' = count uf
           \<and> length (parent uf') = length (parent uf)
           \<and> (\<forall>a s. root_of (parent uf') a s = root_of (parent uf) a s)"
proof -
  from inv bx obtain r where xr: "root_of (parent uf) x r" by (auto simp: uf_inv_def)
  from Find_root_of [OF xr] obtain uf' where
    f: "Find uf x = Some (Returned (r, uf'))" and
    k: "rank uf' = rank uf" "count uf' = count uf" "length (parent uf') = length (parent uf)" and
    fw: "\<forall>a s. root_of (parent uf) a s \<longrightarrow> root_of (parent uf') a s"
    by blast
  have bw: "root_of (parent uf) a s" if h: "root_of (parent uf') a s" for a s
  proof -
    have "in_bounds (parent uf) a" using root_of_in_bounds [OF h] k by (simp add: in_bounds_def)
    then obtain s0 where s0: "root_of (parent uf) a s0" using inv by (auto simp: uf_inv_def)
    then have "root_of (parent uf') a s0" using fw by blast
    then have "s = s0" using h root_of_det by blast
    then show ?thesis using s0 by simp
  qed
  have eq: "\<forall>a s. root_of (parent uf') a s = root_of (parent uf) a s" using fw bw by blast
  have "uf_inv uf'" using inv k eq by (simp add: uf_inv_def in_bounds_def)
  then show ?thesis using f xr k eq by blast
qed

lemma find_in_root_of:
  assumes "uf_inv uf" and "in_bounds (parent uf) x"
  shows "find_in uf x = Some r \<longleftrightarrow> root_of (parent uf) x r"
proof -
  from Find_inv [OF assms] obtain r0 uf' where
    f: "Find uf x = Some (Returned (r0, uf'))" and r0: "root_of (parent uf) x r0" by blast
  have "find_in uf x = Some r0" using f by (simp add: find_in_def)
  then show ?thesis using r0 root_of_det by auto
qed

subsection \<open>Connected\<close>

lemma Connected_inv:
  assumes inv: "uf_inv uf" and bx: "in_bounds (parent uf) x" and byy: "in_bounds (parent uf) y"
  shows "\<exists>uf'. Connected uf x y = Some (Returned ((\<exists>r. root_of (parent uf) x r \<and> root_of (parent uf) y r), uf'))
           \<and> uf_inv uf' \<and> rank uf' = rank uf \<and> count uf' = count uf
           \<and> length (parent uf') = length (parent uf)
           \<and> (\<forall>a s. root_of (parent uf') a s = root_of (parent uf) a s)"
proof -
  from Find_inv [OF inv bx] obtain rx uf1 where
    f1: "Find uf x = Some (Returned (rx, uf1))" and x1: "root_of (parent uf) x rx" and
    i1: "uf_inv uf1" and k1: "rank uf1 = rank uf" "count uf1 = count uf"
      "length (parent uf1) = length (parent uf)" and
    e1: "\<forall>a s. root_of (parent uf1) a s = root_of (parent uf) a s"
    by blast
  have by1: "in_bounds (parent uf1) y" using byy k1 by (simp add: in_bounds_def)
  from Find_inv [OF i1 by1] obtain ry uf2 where
    f2: "Find uf1 y = Some (Returned (ry, uf2))" and y2: "root_of (parent uf1) y ry" and
    i2: "uf_inv uf2" and k2: "rank uf2 = rank uf1" "count uf2 = count uf1"
      "length (parent uf2) = length (parent uf1)" and
    e2: "\<forall>a s. root_of (parent uf2) a s = root_of (parent uf1) a s"
    by blast
  have y0: "root_of (parent uf) y ry" using y2 e1 by simp
  have c: "(rx = ry) = (\<exists>r. root_of (parent uf) x r \<and> root_of (parent uf) y r)"
    using x1 y0 root_of_det by blast
  have "Connected uf x y = Some (Returned (rx = ry, uf2))"
    using f1 f2 by (simp add: Connected_def)
  then show ?thesis using c i2 k1 k2 e1 e2 by simp
qed

lemma connected_in_roots:
  assumes "uf_inv uf" and "in_bounds (parent uf) x" and "in_bounds (parent uf) y"
  shows "connected_in uf x y \<longleftrightarrow> (\<exists>r. root_of (parent uf) x r \<and> root_of (parent uf) y r)"
proof -
  from Connected_inv [OF assms] obtain uf' where
    "Connected uf x y = Some (Returned ((\<exists>r. root_of (parent uf) x r \<and> root_of (parent uf) y r), uf'))"
    by blast
  then show ?thesis by (simp add: connected_in_def)
qed

lemma connected_in_find_in:
  assumes "uf_inv uf" and "in_bounds (parent uf) x" and "in_bounds (parent uf) y"
  shows "connected_in uf x y \<longleftrightarrow> find_in uf x = find_in uf y"
proof -
  from assms obtain rx ry where r: "root_of (parent uf) x rx" "root_of (parent uf) y ry"
    unfolding uf_inv_def by blast
  then have "find_in uf x = Some rx" "find_in uf y = Some ry"
    using assms find_in_root_of by auto
  moreover have "(\<exists>r. root_of (parent uf) x r \<and> root_of (parent uf) y r) = (rx = ry)"
    using r root_of_det by blast
  ultimately show ?thesis using connected_in_roots [OF assms] by simp
qed

text \<open>Two well-formed states with the same roots give the same observations.\<close>

lemma same_roots_find_in:
  assumes "uf_inv uf" and "uf_inv uf'" and "length (parent uf') = length (parent uf)"
    and "\<forall>a s. root_of (parent uf') a s = root_of (parent uf) a s"
    and "in_bounds (parent uf) x"
  shows "find_in uf' x = find_in uf x"
proof -
  from assms obtain r where r: "root_of (parent uf) x r" by (auto simp: uf_inv_def)
  have b': "in_bounds (parent uf') x" using assms by (simp add: in_bounds_def)
  have "find_in uf x = Some r" using r assms find_in_root_of by simp
  moreover have "find_in uf' x = Some r" using r assms b' find_in_root_of by simp
  ultimately show ?thesis by simp
qed


subsection \<open>Union\<close>

text \<open>Hanging the root \<open>l\<close> under the distinct root \<open>w\<close> keeps the structure well formed.\<close>

lemma link_inv:
  assumes inv: "uf_inv uf"
    and l: "in_bounds (parent uf) l" "parent uf ! nat l = l"
    and w: "in_bounds (parent uf) w" "parent uf ! nat w = w"
    and ne: "l \<noteq> w"
    and p': "parent uf' = (parent uf)[nat l := w]"
    and r': "length (rank uf') = length (rank uf)"
  shows "uf_inv uf'"
    and "\<forall>a s. root_of (parent uf) a s \<longrightarrow> root_of (parent uf') a (if s = l then w else s)"
    and "parent uf' ! nat l = w" and "parent uf' ! nat w = w"
proof -
  show fw: "\<forall>a s. root_of (parent uf) a s \<longrightarrow> root_of (parent uf') a (if s = l then w else s)"
    using root_of_link [OF l w ne] p' by simp
  show "uf_inv uf'"
    unfolding uf_inv_def
  proof (intro conjI allI impI)
    show "length (rank uf') = length (parent uf')" using inv p' r' by (simp add: uf_inv_def)
  next
    fix i assume "in_bounds (parent uf') i"
    then have "in_bounds (parent uf) i" using p' by simp
    then obtain s where "root_of (parent uf) i s" using inv unfolding uf_inv_def by blast
    then show "\<exists>r. root_of (parent uf') i r" using fw by blast
  qed
  show "parent uf' ! nat l = w" using p' l by (simp add: nth_update_in_bounds)
  show "parent uf' ! nat w = w" using p' l w ne by (simp add: nth_update_in_bounds)
qed

text \<open>
  \<open>Union\<close> on a well-formed structure, for valid indices with roots \<open>rx\<close> and \<open>ry\<close>: the call
  returns \<open>rx \<noteq> ry\<close>. With equal roots, only path compression has happened. With
  distinct roots, the root of lower rank (\<open>ry\<close> on a tie) is hung under the other one,
  the surviving root's rank grows by one on a tie only, and the count drops by one.
\<close>

lemma Union_roots:
  assumes inv: "uf_inv uf" and xr: "root_of (parent uf) x rx" and yr: "root_of (parent uf) y ry"
  shows "\<exists>uf'. Union_uf uf x y = Some (Returned (rx \<noteq> ry, uf')) \<and> uf_inv uf'
           \<and> length (parent uf') = length (parent uf)
           \<and> (rx = ry \<longrightarrow> rank uf' = rank uf \<and> count uf' = count uf
                 \<and> (\<forall>a s. root_of (parent uf') a s = root_of (parent uf) a s))
           \<and> (rx \<noteq> ry \<longrightarrow> count uf' = count uf - 1
                 \<and> parent uf' ! nat (union_loser uf rx ry) = union_winner uf rx ry
                 \<and> parent uf' ! nat (union_winner uf rx ry) = union_winner uf rx ry
                 \<and> rank uf' = (if rank uf ! nat rx = rank uf ! nat ry
                               then (rank uf)[nat rx := rank uf ! nat rx + 1] else rank uf)
                 \<and> (\<forall>a s. root_of (parent uf) a s \<longrightarrow>
                       root_of (parent uf') a
                         (if s = union_loser uf rx ry then union_winner uf rx ry else s)))"
proof -
  have bx: "in_bounds (parent uf) x" using xr by (rule root_of_in_bounds)
  have byy: "in_bounds (parent uf) y" using yr by (rule root_of_in_bounds)
  from Find_inv [OF inv bx] obtain rx0 uf1 where
    f1: "Find uf x = Some (Returned (rx0, uf1))" and x1: "root_of (parent uf) x rx0" and
    i1: "uf_inv uf1" and k1: "rank uf1 = rank uf" "count uf1 = count uf"
      "length (parent uf1) = length (parent uf)" and
    e1: "\<forall>a s. root_of (parent uf1) a s = root_of (parent uf) a s"
    by blast
  have rx0: "rx0 = rx" using x1 xr root_of_det by blast
  have by1: "in_bounds (parent uf1) y" using byy k1 by (simp add: in_bounds_def)
  from Find_inv [OF i1 by1] obtain ry0 uf2 where
    f2: "Find uf1 y = Some (Returned (ry0, uf2))" and y2: "root_of (parent uf1) y ry0" and
    i2: "uf_inv uf2" and k2: "rank uf2 = rank uf1" "count uf2 = count uf1"
      "length (parent uf2) = length (parent uf1)" and
    e2: "\<forall>a s. root_of (parent uf2) a s = root_of (parent uf1) a s"
    by blast
  have ry0: "ry0 = ry" using y2 yr e1 root_of_det by blast
  have e: "\<forall>a s. root_of (parent uf2) a s = root_of (parent uf) a s" using e1 e2 by simp
  have len2: "length (parent uf2) = length (parent uf)" using k1 k2 by simp
  have rk2: "rank uf2 = rank uf" using k1 k2 by simp
  have ct2: "count uf2 = count uf" using k1 k2 by simp
  show ?thesis
  proof (cases "rx = ry")
    case True
    have "Union_uf uf x y = Some (Returned (False, uf2))"
      using f1 f2 rx0 ry0 True by (simp add: Union_uf_def)
    then show ?thesis using True i2 len2 rk2 ct2 e by simp
  next
    case False
    have px: "in_bounds (parent uf2) rx" "parent uf2 ! nat rx = rx"
      using root_of_is_root [of "parent uf2" x rx] xr e by auto
    have py: "in_bounds (parent uf2) ry" "parent uf2 ! nat ry = ry"
      using root_of_is_root [of "parent uf2" y ry] yr e by auto
    have lr: "length (rank uf2) = length (parent uf2)" using i2 by (simp add: uf_inv_def)
    have bnd: "in_bounds (rank uf2) rx" "in_bounds (rank uf2) ry"
      using px py lr by (simp_all add: in_bounds_def)
    define uf3 where "uf3 =
               (if rank uf2 ! nat rx < rank uf2 ! nat ry then uf2\<lparr>parent := (parent uf2)[nat rx := ry]\<rparr>
                else if rank uf2 ! nat rx > rank uf2 ! nat ry then uf2\<lparr>parent := (parent uf2)[nat ry := rx]\<rparr>
                else uf2\<lparr>parent := (parent uf2)[nat ry := rx],
                         rank := (rank uf2)[nat rx := rank uf2 ! nat rx + 1]\<rparr>)"
    define uf' where "uf' = uf3\<lparr>count := count uf3 - 1\<rparr>"
    let ?w = "union_winner uf rx ry" and ?l = "union_loser uf rx ry"
    have u: "Union_uf uf x y = Some (Returned (True, uf'))"
      using f1 f2 rx0 ry0 False bnd px py by (simp add: Union_uf_def Let_def uf'_def uf3_def)
    have wl: "in_bounds (parent uf2) ?l" "parent uf2 ! nat ?l = ?l"
      "in_bounds (parent uf2) ?w" "parent uf2 ! nat ?w = ?w" "?l \<noteq> ?w"
      using px py False by (simp_all add: union_winner_def union_loser_def)
    have p': "parent uf' = (parent uf2)[nat ?l := ?w]"
      using rk2 by (simp add: union_winner_def union_loser_def uf'_def uf3_def)
    have r': "length (rank uf') = length (rank uf2)" by (simp add: uf'_def uf3_def)
    note li = link_inv [OF i2 wl p' r']
    have m: "\<forall>a s. root_of (parent uf) a s \<longrightarrow> root_of (parent uf') a (if s = ?l then ?w else s)"
      using li(2) e by simp
    have rk: "rank uf' = (if rank uf ! nat rx = rank uf ! nat ry
                            then (rank uf)[nat rx := rank uf ! nat rx + 1] else rank uf)"
      using rk2 by (auto simp: uf'_def uf3_def)
    have ct: "count uf' = count uf - 1" using ct2 by (simp add: uf'_def uf3_def)
    have ln: "length (parent uf') = length (parent uf)" using len2 p' by simp
    show ?thesis
      apply (rule exI [of _ uf'])
      using False u li(1) li(3) li(4) m rk ct ln apply simp
      done
  qed
qed


text \<open>The same, told through the representatives \<open>Find\<close> reports.\<close>

lemma Union_find_in:
  assumes inv: "uf_inv uf" and bx: "in_bounds (parent uf) x" and byy: "in_bounds (parent uf) y"
  shows "\<exists>uf'. Union_uf uf x y = Some (Returned (find_in uf x \<noteq> find_in uf y, uf')) \<and> uf_inv uf'
           \<and> length (parent uf') = length (parent uf)
           \<and> (find_in uf x = find_in uf y \<longrightarrow> rank uf' = rank uf \<and> count uf' = count uf
                 \<and> (\<forall>a. in_bounds (parent uf) a \<longrightarrow> find_in uf' a = find_in uf a))
           \<and> (find_in uf x \<noteq> find_in uf y \<longrightarrow> count uf' = count uf - 1
                 \<and> (\<exists>rx ry. find_in uf x = Some rx \<and> find_in uf y = Some ry
                       \<and> parent uf' ! nat (union_loser uf rx ry) = union_winner uf rx ry
                       \<and> parent uf' ! nat (union_winner uf rx ry) = union_winner uf rx ry
                       \<and> rank uf' = (if rank uf ! nat rx = rank uf ! nat ry
                                     then (rank uf)[nat rx := rank uf ! nat rx + 1] else rank uf)
                       \<and> (\<forall>a. in_bounds (parent uf) a \<longrightarrow>
                             find_in uf' a =
                               (if find_in uf a = Some (union_loser uf rx ry)
                                then Some (union_winner uf rx ry) else find_in uf a))))"
proof -
  from inv bx byy obtain rx ry where xr: "root_of (parent uf) x rx" and yr: "root_of (parent uf) y ry"
    unfolding uf_inv_def by blast
  have fx: "find_in uf x = Some rx" using find_in_root_of [OF inv bx] xr by simp
  have fy: "find_in uf y = Some ry" using find_in_root_of [OF inv byy] yr by simp
  from Union_roots [OF inv xr yr] obtain uf' where
    u: "Union_uf uf x y = Some (Returned (rx \<noteq> ry, uf'))" and i': "uf_inv uf'" and
    ln: "length (parent uf') = length (parent uf)" and
    same: "rx = ry \<longrightarrow> rank uf' = rank uf \<and> count uf' = count uf
             \<and> (\<forall>a s. root_of (parent uf') a s = root_of (parent uf) a s)" and
    diff: "rx \<noteq> ry \<longrightarrow> count uf' = count uf - 1
             \<and> parent uf' ! nat (union_loser uf rx ry) = union_winner uf rx ry
             \<and> parent uf' ! nat (union_winner uf rx ry) = union_winner uf rx ry
             \<and> rank uf' = (if rank uf ! nat rx = rank uf ! nat ry
                           then (rank uf)[nat rx := rank uf ! nat rx + 1] else rank uf)
             \<and> (\<forall>a s. root_of (parent uf) a s \<longrightarrow>
                   root_of (parent uf') a
                     (if s = union_loser uf rx ry then union_winner uf rx ry else s))"
    by blast
  have u': "Union_uf uf x y = Some (Returned (find_in uf x \<noteq> find_in uf y, uf'))"
    using u fx fy by simp
  have c1: "find_in uf' a = find_in uf a"
    if "rx = ry" and ba: "in_bounds (parent uf) a" for a
    using same_roots_find_in [OF inv i' ln _ ba] same that by blast
  have c2: "find_in uf' a = (if find_in uf a = Some (union_loser uf rx ry)
                             then Some (union_winner uf rx ry) else find_in uf a)"
    if ne: "rx \<noteq> ry" and ba: "in_bounds (parent uf) a" for a
  proof -
    from inv ba obtain s where s: "root_of (parent uf) a s" unfolding uf_inv_def by blast
    have fa: "find_in uf a = Some s" using find_in_root_of [OF inv ba] s by simp
    have ba': "in_bounds (parent uf') a" using ba ln by (simp add: in_bounds_def)
    have "root_of (parent uf') a (if s = union_loser uf rx ry then union_winner uf rx ry else s)"
      using diff ne s by blast
    then have "find_in uf' a = Some (if s = union_loser uf rx ry then union_winner uf rx ry else s)"
      using find_in_root_of [OF i' ba'] by simp
    then show ?thesis using fa by simp
  qed
  show ?thesis
    apply (rule exI [of _ uf'])
    using u' i' ln fx fy same diff c1 c2 apply simp
    done
qed

subsection \<open>Well-formed states\<close>

lemma NewUnionFind_inv:
  assumes "NewUnionFind n = Returned uf"
  shows "uf_inv uf" and "length (parent uf) = nat n" and "count uf = n" and "0 \<le> n"
proof -
  have n: "0 \<le> n" and uf: "uf = \<lparr>parent = map int [0..<nat n], rank = replicate (nat n) 0, count = n\<rparr>"
    using assms by (auto simp: NewUnionFind_def split: if_splits)
  show "length (parent uf) = nat n" "count uf = n" "0 \<le> n" using uf n by simp_all
  show "uf_inv uf"
    unfolding uf_inv_def
  proof (intro conjI allI impI)
    show "length (rank uf) = length (parent uf)" using uf by simp
  next
    fix i assume b: "in_bounds (parent uf) i"
    then have "nat i < nat n" "0 \<le> i" using uf n by (auto simp: in_bounds_def)
    then have "parent uf ! nat i = i" using uf by simp
    then have "root_of (parent uf) i i" using b by (rule root_of.at_root [rotated])
    then show "\<exists>r. root_of (parent uf) i r" by blast
  qed
qed

lemma Find_out_of_bounds: "\<not> in_bounds (parent uf) x \<Longrightarrow> Find uf x = Some Panicked"
  by (subst Find.simps) simp

lemma Find_returned_in_bounds:
  assumes "Find uf x = Some (Returned v)"
  shows "in_bounds (parent uf) x"
  using assms Find_out_of_bounds [of uf x] by auto

lemma Find_returned_inv:
  assumes inv: "uf_inv uf" and f: "Find uf x = Some (Returned (r, uf'))"
  shows "uf_inv uf'" and "length (parent uf') = length (parent uf)"
  using Find_inv [OF inv Find_returned_in_bounds [OF f]] f by auto

lemma two_finds_in_bounds:
  assumes inv: "uf_inv uf"
    and ret: "bind_run (Find uf x) (\<lambda>(rootX, uf1). bind_run (Find uf1 y) (k rootX)) = Some (Returned v)"
  shows "in_bounds (parent uf) x \<and> in_bounds (parent uf) y"
proof -
  have bx: "in_bounds (parent uf) x"
  proof (rule ccontr)
    assume "\<not> in_bounds (parent uf) x"
    then have "Find uf x = Some Panicked" by (rule Find_out_of_bounds)
    then show False using ret by simp
  qed
  from Find_inv [OF inv bx] obtain rx uf1 where
    f1: "Find uf x = Some (Returned (rx, uf1))" and l1: "length (parent uf1) = length (parent uf)"
    by blast
  have "in_bounds (parent uf1) y"
  proof (rule ccontr)
    assume "\<not> in_bounds (parent uf1) y"
    then have "Find uf1 y = Some Panicked" by (rule Find_out_of_bounds)
    then show False using ret f1 by simp
  qed
  then show ?thesis using bx l1 by (simp add: in_bounds_def)
qed

lemma Union_returned_inv:
  assumes inv: "uf_inv uf" and u: "Union_uf uf x y = Some (Returned (b, uf'))"
  shows "uf_inv uf'" and "length (parent uf') = length (parent uf)"
proof -
  have "in_bounds (parent uf) x \<and> in_bounds (parent uf) y"
    using u unfolding Union_uf_def by (rule two_finds_in_bounds [OF inv])
  then have bx: "in_bounds (parent uf) x" and byy: "in_bounds (parent uf) y" by auto
  from Union_find_in [OF inv bx byy] u show "uf_inv uf'" "length (parent uf') = length (parent uf)"
    by auto
qed

lemma Connected_returned_inv:
  assumes inv: "uf_inv uf" and c: "Connected uf x y = Some (Returned (b, uf'))"
  shows "uf_inv uf'" and "length (parent uf') = length (parent uf)"
proof -
  have "in_bounds (parent uf) x \<and> in_bounds (parent uf) y"
    using c unfolding Connected_def by (rule two_finds_in_bounds [OF inv])
  then have bx: "in_bounds (parent uf) x" and byy: "in_bounds (parent uf) y" by auto
  from Connected_inv [OF inv bx byy] c show "uf_inv uf'" "length (parent uf') = length (parent uf)"
    by auto
qed

lemma reachable_inv: "reachable uf \<Longrightarrow> uf_inv uf"
proof (induction rule: reachable.induct)
  case (r_new n uf)
  then show ?case by (rule NewUnionFind_inv(1))
next
  case (r_find uf x r uf')
  then show ?case using Find_returned_inv(1) by blast
next
  case (r_union uf x y b uf')
  then show ?case using Union_returned_inv(1) by blast
next
  case (r_connected uf x y b uf')
  then show ?case using Connected_returned_inv(1) by blast
qed

lemma climbs_root_of: "climbs k p x \<Longrightarrow> \<exists>r. root_of p x r"
proof (induction k arbitrary: x)
  case 0
  then show ?case by simp
next
  case (Suc k)
  show ?case
  proof (cases "p ! nat x = x")
    case True
    then show ?thesis using Suc.prems root_of.at_root by auto
  next
    case False
    then have "climbs k p (p ! nat x)" and b: "in_bounds p x" using Suc.prems by auto
    then obtain r where "root_of p (p ! nat x) r" using Suc.IH by blast
    then have "root_of p x r" using b False by (simp add: root_of.via_parent)
    then show ?thesis by blast
  qed
qed

lemma uf_check_inv: "uf_check uf \<Longrightarrow> uf_inv uf"
  unfolding uf_check_def uf_inv_def
proof (intro conjI allI impI)
  assume a: "length (rank uf) = length (parent uf) \<and>
     list_all (\<lambda>i. climbs (length (parent uf)) (parent uf) (int i)) [0..<length (parent uf)]"
  show "length (rank uf) = length (parent uf)" using a by simp
  fix i assume b: "in_bounds (parent uf) i"
  then have ni: "nat i < length (parent uf)" and ii: "0 \<le> i" by (auto simp: in_bounds_def)
  from a have "\<forall>j<length (parent uf). climbs (length (parent uf)) (parent uf) (int j)"
    by (simp add: list_all_iff)
  with ni have "climbs (length (parent uf)) (parent uf) (int (nat i))" by blast
  then have "climbs (length (parent uf)) (parent uf) i" using ii by simp
  then show "\<exists>r. root_of (parent uf) i r" by (rule climbs_root_of)
qed


subsection \<open>Claims about the union-find structure\<close>

text \<open>
  C3 (as amended). For every well-formed union-find state and valid indices \<open>i\<close>, \<open>j\<close>,
  \<open>Union\<close> returns. When \<open>i\<close> and \<open>j\<close> are already in the same component it returns
  false and leaves the ranks, the component counter and the representative of every
  index unchanged (path compression may still rewrite parent links). Otherwise it
  returns true, hangs the root of lower rank under the root of higher rank (the root of
  \<open>j\<close> under the root of \<open>i\<close> on a tie), increments the surviving root's rank on a tie
  only, sends every index of the absorbed root to the surviving root and leaves all other
  representatives alone, and decrements the component counter by exactly 1.
\<close>

theorem C3_union_by_rank:
  assumes "uf_inv uf" and "in_bounds (parent uf) i" and "in_bounds (parent uf) j"
  shows "\<exists>uf'. Union_uf uf i j = Some (Returned (\<not> connected_in uf i j, uf')) \<and> uf_inv uf'
           \<and> (connected_in uf i j \<longrightarrow>
                 rank uf' = rank uf \<and> ComponentCount uf' = ComponentCount uf
                 \<and> (\<forall>a. in_bounds (parent uf) a \<longrightarrow> find_in uf' a = find_in uf a))
           \<and> (\<not> connected_in uf i j \<longrightarrow>
                 ComponentCount uf' = ComponentCount uf - 1
                 \<and> (\<exists>rx ry. find_in uf i = Some rx \<and> find_in uf j = Some ry
                       \<and> parent uf' ! nat (union_loser uf rx ry) = union_winner uf rx ry
                       \<and> parent uf' ! nat (union_winner uf rx ry) = union_winner uf rx ry
                       \<and> rank uf' = (if rank uf ! nat rx = rank uf ! nat ry
                                     then (rank uf)[nat rx := rank uf ! nat rx + 1] else rank uf)
                       \<and> (\<forall>a. in_bounds (parent uf) a \<longrightarrow>
                             find_in uf' a =
                               (if find_in uf a = Some (union_loser uf rx ry)
                                then Some (union_winner uf rx ry) else find_in uf a))))"
proof -
  have c: "connected_in uf i j \<longleftrightarrow> find_in uf i = find_in uf j"
    using assms by (rule connected_in_find_in)
  from Union_find_in [OF assms] obtain uf' where
    "Union_uf uf i j = Some (Returned (find_in uf i \<noteq> find_in uf j, uf')) \<and> uf_inv uf'
       \<and> length (parent uf') = length (parent uf)
       \<and> (find_in uf i = find_in uf j \<longrightarrow> rank uf' = rank uf \<and> count uf' = count uf
             \<and> (\<forall>a. in_bounds (parent uf) a \<longrightarrow> find_in uf' a = find_in uf a))
       \<and> (find_in uf i \<noteq> find_in uf j \<longrightarrow> count uf' = count uf - 1
             \<and> (\<exists>rx ry. find_in uf i = Some rx \<and> find_in uf j = Some ry
                   \<and> parent uf' ! nat (union_loser uf rx ry) = union_winner uf rx ry
                   \<and> parent uf' ! nat (union_winner uf rx ry) = union_winner uf rx ry
                   \<and> rank uf' = (if rank uf ! nat rx = rank uf ! nat ry
                                 then (rank uf)[nat rx := rank uf ! nat rx + 1] else rank uf)
                   \<and> (\<forall>a. in_bounds (parent uf) a \<longrightarrow>
                         find_in uf' a =
                           (if find_in uf a = Some (union_loser uf rx ry)
                            then Some (union_winner uf rx ry) else find_in uf a))))"
    by blast
  then show ?thesis
    unfolding c ComponentCount_def by (intro exI [of _ uf']) simp
qed

theorem C3_union_by_rank_witness:
  "uf_inv \<lparr>parent = [0, 0, 2, 2], rank = [1, 0, 1, 0], count = 2\<rparr>
   \<and> in_bounds [0, 0, 2, 2 :: int] 1 \<and> in_bounds [0, 0, 2, 2 :: int] 3
   \<and> \<not> connected_in \<lparr>parent = [0, 0, 2, 2], rank = [1, 0, 1, 0], count = 2\<rparr> 1 3
   \<and> Union_uf \<lparr>parent = [0, 0, 2, 2], rank = [1, 0, 1, 0], count = 2\<rparr> 1 3
       = Some (Returned (True, \<lparr>parent = [0, 0, 0, 2], rank = [2, 0, 1, 0], count = 1\<rparr>))
   \<and> (\<exists>uf'. Union_uf \<lparr>parent = [0, 0, 2, 2], rank = [1, 0, 1, 0], count = 2\<rparr> 1 3
               = Some (Returned (True, uf'))
             \<and> uf_inv uf' \<and> ComponentCount uf' = 1)"
proof -
  let ?U = "\<lparr>parent = [0, 0, 2, 2], rank = [1, 0, 1, 0], count = 2\<rparr>"
  have "uf_check ?U" by code_simp
  then have inv: "uf_inv ?U" by (rule uf_check_inv)
  have b1: "in_bounds (parent ?U) 1" and b3: "in_bounds (parent ?U) 3"
    by (simp_all add: in_bounds_def)
  have nc: "\<not> connected_in ?U 1 3" by code_simp
  have ev: "Union_uf ?U 1 3
              = Some (Returned (True, \<lparr>parent = [0, 0, 0, 2], rank = [2, 0, 1, 0], count = 1\<rparr>))"
    by code_simp
  from C3_union_by_rank [OF inv b1 b3] nc
  have "\<exists>uf'. Union_uf ?U 1 3 = Some (Returned (True, uf')) \<and> uf_inv uf' \<and> ComponentCount uf' = 1"
    by (auto simp: ComponentCount_def)
  then show ?thesis using inv b1 b3 nc ev by simp
qed

text \<open>
  C3 as stated fails: the state below is built by \<open>NewUnionFind 4\<close> and three unions;
  indices 3 and 0 are in the same component, \<open>Union 3 0\<close> returns false, and yet the
  parent link of index 3 has been rewritten from 2 to 0.
\<close>

theorem C3_counterexample:
  "NewUnionFind 4 = Returned \<lparr>parent = [0, 1, 2, 3], rank = [0, 0, 0, 0], count = 4\<rparr>
   \<and> Union_uf \<lparr>parent = [0, 1, 2, 3], rank = [0, 0, 0, 0], count = 4\<rparr> 0 1
       = Some (Returned (True, \<lparr>parent = [0, 0, 2, 3], rank = [1, 0, 0, 0], count = 3\<rparr>))
   \<and> Union_uf \<lparr>parent = [0, 0, 2, 3], rank = [1, 0, 0, 0], count = 3\<rparr> 2 3
       = Some (Returned (True, \<lparr>parent = [0, 0, 2, 2], rank = [1, 0, 1, 0], count = 2\<rparr>))
   \<and> Union_uf \<lparr>parent = [0, 0, 2, 2], rank = [1, 0, 1, 0], count = 2\<rparr> 0 2
       = Some (Returned (True, \<lparr>parent = [0, 0, 0, 2], rank = [2, 0, 1, 0], count = 1\<rparr>))
   \<and> connected_in \<lparr>parent = [0, 0, 0, 2], rank = [2, 0, 1, 0], count = 1\<rparr> 3 0
   \<and> Union_uf \<lparr>parent = [0, 0, 0, 2], rank = [2, 0, 1, 0], count = 1\<rparr> 3 0
       = Some (Returned (False, \<lparr>parent = [0, 0, 0, 0], rank = [2, 0, 1, 0], count = 1\<rparr>))
   \<and> \<lparr>parent = [0, 0, 0, 0], rank = [2, 0, 1, 0], count = 1\<rparr>
       \<noteq> \<lparr>parent = [0, 0, 0, 2], rank = [2, 0, 1, 0], count = (1::int)\<rparr>"
  by code_simp

text \<open>
  C10. \<open>Find\<close> never changes the component partition: in every reachable state, for
  all valid indices \<open>a\<close>, \<open>b\<close> and \<open>i\<close>, the call \<open>Find i\<close> returns, and
  \<open>Connected a b\<close> and the component count are the same before and after it.
\<close>

theorem C10_find_keeps_partition:
  assumes "reachable uf" and "in_bounds (parent uf) i"
    and "in_bounds (parent uf) a" and "in_bounds (parent uf) b"
  shows "\<exists>r uf'. Find uf i = Some (Returned (r, uf'))
           \<and> connected_in uf' a b = connected_in uf a b
           \<and> ComponentCount uf' = ComponentCount uf
           \<and> length (parent uf') = length (parent uf) \<and> reachable uf'"
proof -
  have inv: "uf_inv uf" using assms(1) by (rule reachable_inv)
  from Find_inv [OF inv assms(2)] obtain r uf' where
    f: "Find uf i = Some (Returned (r, uf'))" and i': "uf_inv uf'" and
    ct: "count uf' = count uf" and ln: "length (parent uf') = length (parent uf)" and
    e: "\<forall>a s. root_of (parent uf') a s = root_of (parent uf) a s"
    by blast
  have ba: "in_bounds (parent uf') a" and bb: "in_bounds (parent uf') b"
    using assms(3,4) ln by (simp_all add: in_bounds_def)
  have "connected_in uf' a b = connected_in uf a b"
    using connected_in_roots [OF i' ba bb] connected_in_roots [OF inv assms(3,4)] e by simp
  moreover have "reachable uf'" using assms(1) f by (rule reachable.r_find)
  ultimately show ?thesis using f ct ln by (simp add: ComponentCount_def)
qed

theorem C10_find_keeps_partition_witness:
  "reachable \<lparr>parent = [0, 0, 0, 2], rank = [2, 0, 1, 0], count = 1\<rparr>
   \<and> Find \<lparr>parent = [0, 0, 0, 2], rank = [2, 0, 1, 0], count = 1\<rparr> 3
       = Some (Returned (0, \<lparr>parent = [0, 0, 0, 0], rank = [2, 0, 1, 0], count = 1\<rparr>))
   \<and> connected_in \<lparr>parent = [0, 0, 0, 0], rank = [2, 0, 1, 0], count = 1\<rparr> 1 3
       = connected_in \<lparr>parent = [0, 0, 0, 2], rank = [2, 0, 1, 0], count = 1\<rparr> 1 3
   \<and> ComponentCount \<lparr>parent = [0, 0, 0, 0], rank = [2, 0, 1, 0], count = 1\<rparr>
       = ComponentCount \<lparr>parent = [0, 0, 0, 2], rank = [2, 0, 1, 0], count = 1\<rparr>"
proof -
  let ?U0 = "\<lparr>parent = [0, 1, 2, 3], rank = [0, 0, 0, 0], count = (4::int)\<rparr>"
  let ?U1 = "\<lparr>parent = [0, 0, 2, 3], rank = [1, 0, 0, 0], count = (3::int)\<rparr>"
  let ?U2 = "\<lparr>parent = [0, 0, 2, 2], rank = [1, 0, 1, 0], count = (2::int)\<rparr>"
  let ?U3 = "\<lparr>parent = [0, 0, 0, 2], rank = [2, 0, 1, 0], count = (1::int)\<rparr>"
  let ?U4 = "\<lparr>parent = [0, 0, 0, 0], rank = [2, 0, 1, 0], count = (1::int)\<rparr>"
  have "NewUnionFind 4 = Returned ?U0" by code_simp
  then have r0: "reachable ?U0" by (rule reachable.r_new)
  have "Union_uf ?U0 0 1 = Some (Returned (True, ?U1))" by code_simp
  with r0 have r1: "reachable ?U1" by (rule reachable.r_union)
  have "Union_uf ?U1 2 3 = Some (Returned (True, ?U2))" by code_simp
  with r1 have r2: "reachable ?U2" by (rule reachable.r_union)
  have "Union_uf ?U2 0 2 = Some (Returned (True, ?U3))" by code_simp
  with r2 have r3: "reachable ?U3" by (rule reachable.r_union)
  have b: "in_bounds (parent ?U3) 3" "in_bounds (parent ?U3) 1"
    by (simp_all add: in_bounds_def)
  have ev: "Find ?U3 3 = Some (Returned (0, ?U4))" by code_simp
  from C10_find_keeps_partition [OF r3 b(1) b(2) b(1)] ev
  have "connected_in ?U4 1 3 = connected_in ?U3 1 3 \<and> ComponentCount ?U4 = ComponentCount ?U3"
    by simp
  then show ?thesis using r3 ev by simp
qed


subsection \<open>The grid\<close>

lemma grid_cell:
  assumes g: "grid_ok b" and i: "in_grid b x y"
  shows "cell_index b x y = y * Width b + x"
    and "in_bounds (Tiles b) (y * Width b + x)"
    and "Width b < 2 ^ 63" and "Height b < 2 ^ 63"
proof -
  have x: "0 \<le> x" "x < Width b" and y: "0 \<le> y" "y < Height b"
    using i by (simp_all add: in_grid_def)
  have len: "int (length (Tiles b)) = Width b * Height b" and small: "Width b * Height b < 2 ^ 63"
    using g by (simp_all add: grid_ok_def)
  have w0: "0 \<le> Width b" using x by simp
  have yw: "0 \<le> y * Width b" using y w0 by simp
  have "(y + 1) * Width b \<le> Height b * Width b"
    using y w0 by (intro mult_right_mono) simp_all
  then have up: "y * Width b + x < Width b * Height b"
    using x by (simp add: algebra_simps)
  have "y * Width b < 2 ^ 63" using up small x by simp
  then have "i64 (y * Width b) = y * Width b" using yw by (simp add: i64_id)
  moreover have "i64 (y * Width b + x) = y * Width b + x"
    using yw x up small by (simp add: i64_id)
  ultimately show "cell_index b x y = y * Width b + x" by (simp add: cell_index_def)
  show "in_bounds (Tiles b) (y * Width b + x)"
    using yw x up len by (simp add: in_bounds_def)
  have "Width b * 1 \<le> Width b * Height b" using y w0 by (intro mult_left_mono) simp_all
  then show "Width b < 2 ^ 63" using small by simp
  have "1 * Height b \<le> Width b * Height b" using x y by (intro mult_right_mono) simp_all
  then show "Height b < 2 ^ 63" using small by simp
qed

lemma grid_cell_inj:
  assumes "in_grid b x y" and "in_grid b x' y'" and e: "y' * Width b + x' = y * Width b + x"
  shows "x' = x \<and> y' = y"
proof -
  have x: "0 \<le> x" "x < Width b" and x': "0 \<le> x'" "x' < Width b"
    using assms by (simp_all add: in_grid_def)
  have "y' = y"
  proof (rule ccontr)
    assume ne: "y' \<noteq> y"
    show False
    proof (cases "y < y'")
      case True
      then have "(y + 1) * Width b \<le> y' * Width b" using x by (intro mult_right_mono) simp_all
      then show False using e x x' by (simp add: algebra_simps)
    next
      case False
      then have "(y' + 1) * Width b \<le> y * Width b" using ne x by (intro mult_right_mono) simp_all
      then show False using e x x' by (simp add: algebra_simps)
    qed
  qed
  then show ?thesis using e by simp
qed

lemma GetTile_grid:
  assumes "grid_ok b"
  shows "GetTile b x y =
           Returned (if in_grid b x y then Some (Tiles b ! nat (y * Width b + x)) else None)"
proof (cases "in_grid b x y")
  case True
  then have "\<not> (x < 0 \<or> x \<ge> Width b \<or> y < 0 \<or> y \<ge> Height b)" by (auto simp: in_grid_def)
  then show ?thesis using True grid_cell(1,2) [OF assms True] by (simp add: GetTile_def)
next
  case False
  then have "x < 0 \<or> x \<ge> Width b \<or> y < 0 \<or> y \<ge> Height b" by (auto simp: in_grid_def)
  then show ?thesis using False by (simp add: GetTile_def)
qed

lemma land_or_bridge_GetTile:
  assumes "grid_ok b" and "GetTile b x y = Returned t"
  shows "land_or_bridge t = is_link b x y"
  using assms(2) unfolding GetTile_grid [OF assms(1)]
  by (auto simp: land_or_bridge_def is_link_def tile_type_at_def split: if_splits)

lemma neighbor_coords:
  assumes g: "grid_ok b" and i: "in_grid b x y" and d: "\<bar>dx\<bar> \<le> 1" "\<bar>dy\<bar> \<le> 1"
  shows "i64 (x + dx) = x + dx" and "i64 (y + dy) = y + dy"
proof -
  have x: "0 \<le> x" "x < Width b" and y: "0 \<le> y" "y < Height b"
    using i by (simp_all add: in_grid_def)
  note wh = grid_cell(3,4) [OF g i]
  show "i64 (x + dx) = x + dx" using x wh d by (intro i64_id) auto
  show "i64 (y + dy) = y + dy" using y wh d by (intro i64_id) auto
qed

lemma has_connection_grid:
  assumes g: "grid_ok b" and i: "in_grid b x y"
    and d: "\<forall>d \<in> set dirs. \<bar>fst d\<bar> \<le> 1 \<and> \<bar>snd d\<bar> \<le> 1"
  shows "has_connection b x y dirs = Returned (\<exists>d \<in> set dirs. is_link b (x + fst d) (y + snd d))"
  using d
proof (induction dirs)
  case Nil
  then show ?case by simp
next
  case (Cons dir dirs)
  have c: "i64 (x + fst dir) = x + fst dir" "i64 (y + snd dir) = y + snd dir"
    using neighbor_coords [OF g i, of "fst dir" "snd dir"] Cons.prems by simp_all
  obtain t where t: "GetTile b (x + fst dir) (y + snd dir) = Returned t"
    using GetTile_grid [OF g] by blast
  have l: "land_or_bridge t = is_link b (x + fst dir) (y + snd dir)"
    using land_or_bridge_GetTile [OF g t] .
  have ih: "has_connection b x y dirs
              = Returned (\<exists>d \<in> set dirs. is_link b (x + fst d) (y + snd d))"
    using Cons by simp
  show ?case using c t l ih by simp
qed

lemma directions_small: "\<forall>d \<in> set directions. \<bar>fst d\<bar> \<le> 1 \<and> \<bar>snd d\<bar> \<le> 1"
  by (simp add: directions_def)

lemma CanBuildBridge_grid:
  assumes g: "grid_ok b"
  shows "CanBuildBridge b x y =
           Returned (in_grid b x y \<and> tile_type_at b x y = TileSea
                     \<and> (\<exists>d \<in> set directions. is_link b (x + fst d) (y + snd d)))"
proof (cases "in_grid b x y \<and> tile_type_at b x y = TileSea")
  case True
  then show ?thesis
    using has_connection_grid [OF g _ directions_small, of x y]
    by (simp add: CanBuildBridge_def GetTile_grid [OF g] tile_type_at_def)
next
  case False
  then show ?thesis
    by (auto simp: CanBuildBridge_def GetTile_grid [OF g] tile_type_at_def)
qed

subsection \<open>Claims about tile access and the build rule\<close>

text \<open>
  C9. On every board whose tile slice has one entry per cell, and for every integer
  pair \<open>(x, y)\<close>, \<open>GetTile\<close> returns the no-tile result exactly when \<open>(x, y)\<close> lies
  outside \<open>[0, Width) \<times> [0, Height)\<close>; an in-range lookup returns the tile stored at
  index \<open>y * Width + x\<close>, that index is inside the slice and belongs to no other in-range
  cell, and the call never panics.
\<close>

theorem C9_get_tile:
  assumes "grid_ok b"
  shows "(GetTile b x y = Returned None \<longleftrightarrow> \<not> in_grid b x y)
         \<and> (in_grid b x y \<longrightarrow>
              GetTile b x y = Returned (Some (Tiles b ! nat (y * Width b + x)))
              \<and> in_bounds (Tiles b) (y * Width b + x)
              \<and> (\<forall>x' y'. in_grid b x' y' \<and> y' * Width b + x' = y * Width b + x
                    \<longrightarrow> x' = x \<and> y' = y))
         \<and> GetTile b x y \<noteq> Panicked"
  using GetTile_grid [OF assms, of x y] grid_cell(2) [OF assms, of x y] grid_cell_inj [of b x y]
  by auto

theorem C9_get_tile_witness:
  "grid_ok \<lparr>Width = 2, Height = 1, Tiles = [\<lparr>Type = TileSea\<rparr>, \<lparr>Type = TileLand\<rparr>],
            UnionFind = \<lparr>parent = [0, 1], rank = [0, 0], count = 2\<rparr>, Islands = [1]\<rparr>
   \<and> GetTile \<lparr>Width = 2, Height = 1, Tiles = [\<lparr>Type = TileSea\<rparr>, \<lparr>Type = TileLand\<rparr>],
            UnionFind = \<lparr>parent = [0, 1], rank = [0, 0], count = 2\<rparr>, Islands = [1]\<rparr> 1 0
       = Returned (Some \<lparr>Type = TileLand\<rparr>)
   \<and> GetTile \<lparr>Width = 2, Height = 1, Tiles = [\<lparr>Type = TileSea\<rparr>, \<lparr>Type = TileLand\<rparr>],
            UnionFind = \<lparr>parent = [0, 1], rank = [0, 0], count = 2\<rparr>, Islands = [1]\<rparr> 2 0
       = Returned None
   \<and> GetTile \<lparr>Width = 2, Height = 1, Tiles = [\<lparr>Type = TileSea\<rparr>, \<lparr>Type = TileLand\<rparr>],
            UnionFind = \<lparr>parent = [0, 1], rank = [0, 0], count = 2\<rparr>, Islands = [1]\<rparr> (-1) 0
       = Returned None"
proof -
  let ?b = "\<lparr>Width = 2, Height = 1, Tiles = [\<lparr>Type = TileSea\<rparr>, \<lparr>Type = TileLand\<rparr>],
            UnionFind = \<lparr>parent = [0, 1], rank = [0, 0], count = 2\<rparr>, Islands = [1]\<rparr>"
  have g: "grid_ok ?b" by (simp add: grid_ok_def)
  have "in_grid ?b 1 0" "\<not> in_grid ?b 2 0" "\<not> in_grid ?b (-1) 0" by (simp_all add: in_grid_def)
  then show ?thesis
    using g C9_get_tile [OF g, of 1 0] C9_get_tile [OF g, of 2 0] C9_get_tile [OF g, of "-1" 0]
    by simp
qed

text \<open>
  C1. On every board whose tile slice has one entry per cell, and for every coordinate
  \<open>(x, y)\<close>, \<open>CanBuildBridge\<close> returns true if and only if \<open>(x, y)\<close> is inside the grid,
  the tile there is \<open>Sea\<close>, and at least one of the four orthogonal neighbours (below,
  right, above, left; no diagonals) is inside the grid and holds \<open>Land\<close> or \<open>Bridge\<close>.
  In particular the answer for a coordinate outside the grid is false.
\<close>

theorem C1_can_build_bridge:
  assumes "grid_ok b"
  shows "CanBuildBridge b x y =
           Returned (in_grid b x y \<and> tile_type_at b x y = TileSea
                     \<and> (is_link b x (y + 1) \<or> is_link b (x + 1) y
                          \<or> is_link b x (y - 1) \<or> is_link b (x - 1) y))
         \<and> (\<not> in_grid b x y \<longrightarrow> CanBuildBridge b x y = Returned False)"
  unfolding CanBuildBridge_grid [OF assms] by (simp add: directions_def)

theorem C1_can_build_bridge_witness:
  "grid_ok \<lparr>Width = 2, Height = 1, Tiles = [\<lparr>Type = TileSea\<rparr>, \<lparr>Type = TileLand\<rparr>],
            UnionFind = \<lparr>parent = [0, 1], rank = [0, 0], count = 2\<rparr>, Islands = [1]\<rparr>
   \<and> CanBuildBridge \<lparr>Width = 2, Height = 1, Tiles = [\<lparr>Type = TileSea\<rparr>, \<lparr>Type = TileLand\<rparr>],
            UnionFind = \<lparr>parent = [0, 1], rank = [0, 0], count = 2\<rparr>, Islands = [1]\<rparr> 0 0
       = Returned True
   \<and> CanBuildBridge \<lparr>Width = 2, Height = 1, Tiles = [\<lparr>Type = TileSea\<rparr>, \<lparr>Type = TileLand\<rparr>],
            UnionFind = \<lparr>parent = [0, 1], rank = [0, 0], count = 2\<rparr>, Islands = [1]\<rparr> 1 0
       = Returned False
   \<and> CanBuildBridge \<lparr>Width = 2, Height = 1, Tiles = [\<lparr>Type = TileSea\<rparr>, \<lparr>Type = TileLand\<rparr>],
            UnionFind = \<lparr>parent = [0, 1], rank = [0, 0], count = 2\<rparr>, Islands = [1]\<rparr> 2 0
       = Returned False"
proof -
  let ?b = "\<lparr>Width = 2, Height = 1, Tiles = [\<lparr>Type = TileSea\<rparr>, \<lparr>Type = TileLand\<rparr>],
            UnionFind = \<lparr>parent = [0, 1], rank = [0, 0], count = 2\<rparr>, Islands = [1]\<rparr>"
  have g: "grid_ok ?b" by (simp add: grid_ok_def)
  show ?thesis
    using g C1_can_build_bridge [OF g, of 0 0] C1_can_build_bridge [OF g, of 1 0]
      C1_can_build_bridge [OF g, of 2 0]
    by (simp add: in_grid_def is_link_def tile_type_at_def TileSea_def TileLand_def TileBridge_def)
qed

text \<open>
  C4. Wherever \<open>CanBuildBridge\<close> answers false, \<open>BuildBridge\<close> returns the board it was
  given: the number of tiles of each kind, the island registry and the component count
  are unchanged.
\<close>

theorem C4_rejected_build_is_noop:
  assumes "CanBuildBridge b x y = Returned False"
  shows "BuildBridge b x y = Some (Returned b)
         \<and> (\<exists>b'. BuildBridge b x y = Some (Returned b')
               \<and> (\<forall>k. count_kind b' k = count_kind b k)
               \<and> Islands b' = Islands b
               \<and> ComponentCount (UnionFind b') = ComponentCount (UnionFind b))"
  using assms by (simp add: BuildBridge_def)

theorem C4_rejected_build_is_noop_witness:
  "CanBuildBridge \<lparr>Width = 2, Height = 1, Tiles = [\<lparr>Type = TileSea\<rparr>, \<lparr>Type = TileLand\<rparr>],
            UnionFind = \<lparr>parent = [0, 1], rank = [0, 0], count = 2\<rparr>, Islands = [1]\<rparr> 1 0
     = Returned False
   \<and> BuildBridge \<lparr>Width = 2, Height = 1, Tiles = [\<lparr>Type = TileSea\<rparr>, \<lparr>Type = TileLand\<rparr>],
            UnionFind = \<lparr>parent = [0, 1], rank = [0, 0], count = 2\<rparr>, Islands = [1]\<rparr> 1 0
     = Some (Returned \<lparr>Width = 2, Height = 1, Tiles = [\<lparr>Type = TileSea\<rparr>, \<lparr>Type = TileLand\<rparr>],
            UnionFind = \<lparr>parent = [0, 1], rank = [0, 0], count = 2\<rparr>, Islands = [1]\<rparr>)"
proof -
  let ?b = "\<lparr>Width = 2, Height = 1, Tiles = [\<lparr>Type = TileSea\<rparr>, \<lparr>Type = TileLand\<rparr>],
            UnionFind = \<lparr>parent = [0, 1], rank = [0, 0], count = 2\<rparr>, Islands = [1]\<rparr>"
  have c: "CanBuildBridge ?b 1 0 = Returned False" by code_simp
  show ?thesis using c C4_rejected_build_is_noop [OF c] by simp
qed


subsection \<open>The win check\<close>

lemma same_roots_connected_in:
  assumes "uf_inv uf" and "uf_inv uf'" and ln: "length (parent uf') = length (parent uf)"
    and e: "\<forall>a s. root_of (parent uf') a s = root_of (parent uf) a s"
    and bx: "in_bounds (parent uf) x" and byy: "in_bounds (parent uf) y"
  shows "connected_in uf' x y = connected_in uf x y"
proof -
  have "in_bounds (parent uf') x" "in_bounds (parent uf') y"
    using bx byy ln by (simp_all add: in_bounds_def)
  then show ?thesis
    using connected_in_roots [OF assms(2)] connected_in_roots [OF assms(1) bx byy] e by simp
qed

lemma connected_in_refl:
  assumes "uf_inv uf" and "in_bounds (parent uf) x"
  shows "connected_in uf x x"
  using connected_in_find_in [OF assms assms(2)] by simp

lemma all_connected_to_inv:
  assumes "uf_inv uf" and "in_bounds (parent uf) f" and "list_all (in_bounds (parent uf)) ks"
  shows "\<exists>uf'. all_connected_to uf f ks
                 = Some (Returned ((\<forall>k \<in> set ks. connected_in uf f k), uf'))
           \<and> uf_inv uf' \<and> length (parent uf') = length (parent uf) \<and> count uf' = count uf"
  using assms
proof (induction ks arbitrary: uf)
  case Nil
  then show ?case by simp
next
  case (Cons k ks)
  have bk: "in_bounds (parent uf) k" and bks: "list_all (in_bounds (parent uf)) ks"
    using Cons.prems(3) by simp_all
  from Connected_inv [OF Cons.prems(1,2) bk] obtain uf1 where
    c: "Connected uf f k = Some (Returned ((\<exists>r. root_of (parent uf) f r \<and> root_of (parent uf) k r), uf1))"
    and i1: "uf_inv uf1" and ct: "count uf1 = count uf"
    and ln: "length (parent uf1) = length (parent uf)"
    and e: "\<forall>a s. root_of (parent uf1) a s = root_of (parent uf) a s"
    by blast
  have ck: "connected_in uf f k = (\<exists>r. root_of (parent uf) f r \<and> root_of (parent uf) k r)"
    using connected_in_roots [OF Cons.prems(1,2) bk] .
  show ?case
  proof (cases "connected_in uf f k")
    case False
    then have "all_connected_to uf f (k # ks) = Some (Returned (False, uf1))"
      using c ck by simp
    then show ?thesis using False i1 ct ln by auto
  next
    case True
    have bf1: "in_bounds (parent uf1) f" using Cons.prems(2) ln by (simp add: in_bounds_def)
    have bks1: "list_all (in_bounds (parent uf1)) ks"
      using bks ln by (simp add: in_bounds_def list_all_iff)
    from Cons.IH [OF i1 bf1 bks1] obtain uf' where
      r: "all_connected_to uf1 f ks = Some (Returned ((\<forall>k \<in> set ks. connected_in uf1 f k), uf'))"
      and k': "uf_inv uf'" "length (parent uf') = length (parent uf1)" "count uf' = count uf1"
      by blast
    have "(\<forall>k \<in> set ks. connected_in uf1 f k) = (\<forall>k \<in> set ks. connected_in uf f k)"
      using same_roots_connected_in [OF Cons.prems(1) i1 ln e Cons.prems(2)] bks
      by (auto simp: list_all_iff)
    then have "all_connected_to uf f (k # ks)
                 = Some (Returned ((\<forall>k \<in> set (k # ks). connected_in uf f k), uf'))"
      using c ck True r by simp
    then show ?thesis using k' ln ct by auto
  qed
qed

text \<open>
  C6. \<open>IsAllConnected\<close> returns true, without touching the board, when the island
  registry holds 0 or 1 entries (whatever the board, whatever the grid size). On a
  well-formed board with more entries it returns true if and only if every island cell
  of the registry is connected, in the union-find structure, to the first one.
\<close>

theorem C6_is_all_connected:
  "(length (Islands b) \<le> 1 \<longrightarrow> IsAllConnected b = Some (Returned (True, b)))
   \<and> (board_inv b \<and> 1 < length (Islands b) \<longrightarrow>
        (\<exists>b'. IsAllConnected b
                 = Some (Returned ((\<forall>k \<in> set (Islands b).
                                      connected_in (UnionFind b) (Islands b ! 0) k), b'))
              \<and> Tiles b' = Tiles b \<and> Islands b' = Islands b
              \<and> ComponentCount (UnionFind b') = ComponentCount (UnionFind b)))"
proof (intro conjI impI)
  assume "length (Islands b) \<le> 1"
  then show "IsAllConnected b = Some (Returned (True, b))" by (simp add: IsAllConnected_def)
next
  assume a: "board_inv b \<and> 1 < length (Islands b)"
  then obtain f ks where isl: "Islands b = f # ks" by (cases "Islands b") auto
  have inv: "uf_inv (UnionFind b)" and ln: "length (parent (UnionFind b)) = length (Tiles b)"
    and bi: "list_all (in_bounds (Tiles b)) (Islands b)"
    using a by (simp_all add: board_inv_def)
  have bf: "in_bounds (parent (UnionFind b)) f" and bks: "list_all (in_bounds (parent (UnionFind b))) ks"
    using bi ln isl by (simp_all add: in_bounds_def list_all_iff)
  from all_connected_to_inv [OF inv bf bks] obtain u where
    r: "all_connected_to (UnionFind b) f ks
          = Some (Returned ((\<forall>k \<in> set ks. connected_in (UnionFind b) f k), u))"
    and ct: "count u = count (UnionFind b)"
    by blast
  have "connected_in (UnionFind b) f f" using inv bf by (rule connected_in_refl)
  then have "(\<forall>k \<in> set (Islands b). connected_in (UnionFind b) (Islands b ! 0) k)
               = (\<forall>k \<in> set ks. connected_in (UnionFind b) f k)"
    using isl by simp
  moreover have "IsAllConnected b
      = Some (Returned ((\<forall>k \<in> set ks. connected_in (UnionFind b) f k), b\<lparr>UnionFind := u\<rparr>))"
    using a isl r by (simp add: IsAllConnected_def)
  ultimately show "\<exists>b'. IsAllConnected b
                 = Some (Returned ((\<forall>k \<in> set (Islands b).
                                      connected_in (UnionFind b) (Islands b ! 0) k), b'))
              \<and> Tiles b' = Tiles b \<and> Islands b' = Islands b
              \<and> ComponentCount (UnionFind b') = ComponentCount (UnionFind b)"
    using ct by (intro exI [of _ "b\<lparr>UnionFind := u\<rparr>"]) (simp add: ComponentCount_def)
qed

theorem C6_is_all_connected_witness:
  "board_inv \<lparr>Width = 3, Height = 1,
              Tiles = [\<lparr>Type = TileLand\<rparr>, \<lparr>Type = TileBridge\<rparr>, \<lparr>Type = TileLand\<rparr>],
              UnionFind = \<lparr>parent = [1, 1, 1], rank = [0, 1, 0], count = 1\<rparr>, Islands = [0, 2]\<rparr>
   \<and> IsAllConnected \<lparr>Width = 3, Height = 1,
              Tiles = [\<lparr>Type = TileLand\<rparr>, \<lparr>Type = TileBridge\<rparr>, \<lparr>Type = TileLand\<rparr>],
              UnionFind = \<lparr>parent = [1, 1, 1], rank = [0, 1, 0], count = 1\<rparr>, Islands = [0, 2]\<rparr>
       = Some (Returned (True, \<lparr>Width = 3, Height = 1,
              Tiles = [\<lparr>Type = TileLand\<rparr>, \<lparr>Type = TileBridge\<rparr>, \<lparr>Type = TileLand\<rparr>],
              UnionFind = \<lparr>parent = [1, 1, 1], rank = [0, 1, 0], count = 1\<rparr>, Islands = [0, 2]\<rparr>))
   \<and> connected_in \<lparr>parent = [1, 1, 1], rank = [0, 1, 0], count = 1\<rparr> 0 0
   \<and> connected_in \<lparr>parent = [1, 1, 1], rank = [0, 1, 0], count = 1\<rparr> 0 2
   \<and> IsAllConnected \<lparr>Width = 3, Height = 1,
              Tiles = [\<lparr>Type = TileLand\<rparr>, \<lparr>Type = TileSea\<rparr>, \<lparr>Type = TileSea\<rparr>],
              UnionFind = \<lparr>parent = [0, 1, 2], rank = [0, 0, 0], count = 3\<rparr>, Islands = [0]\<rparr>
       = Some (Returned (True, \<lparr>Width = 3, Height = 1,
              Tiles = [\<lparr>Type = TileLand\<rparr>, \<lparr>Type = TileSea\<rparr>, \<lparr>Type = TileSea\<rparr>],
              UnionFind = \<lparr>parent = [0, 1, 2], rank = [0, 0, 0], count = 3\<rparr>, Islands = [0]\<rparr>))"
proof -
  let ?u = "\<lparr>parent = [1, 1, 1], rank = [0, 1, 0], count = (1::int)\<rparr>"
  let ?b = "\<lparr>Width = 3, Height = 1,
              Tiles = [\<lparr>Type = TileLand\<rparr>, \<lparr>Type = TileBridge\<rparr>, \<lparr>Type = TileLand\<rparr>],
              UnionFind = ?u, Islands = [0, 2]\<rparr>"
  let ?c = "\<lparr>Width = 3, Height = 1,
              Tiles = [\<lparr>Type = TileLand\<rparr>, \<lparr>Type = TileSea\<rparr>, \<lparr>Type = TileSea\<rparr>],
              UnionFind = \<lparr>parent = [0, 1, 2], rank = [0, 0, 0], count = 3\<rparr>, Islands = [0]\<rparr>"
  have "uf_check ?u" by code_simp
  then have "uf_inv ?u" by (rule uf_check_inv)
  then have inv: "board_inv ?b" by (simp add: board_inv_def grid_ok_def in_bounds_def)
  have ev: "IsAllConnected ?b = Some (Returned (True, ?b))" by code_simp
  have c: "connected_in ?u 0 0" "connected_in ?u 0 2" by code_simp+
  have "IsAllConnected ?c = Some (Returned (True, ?c))"
    using C6_is_all_connected [of ?c] by simp
  then show ?thesis using inv ev c C6_is_all_connected [of ?b] by simp
qed


subsection \<open>Building a bridge\<close>

text \<open>One \<open>Union\<close> call, seen through the representatives before and after it.\<close>

lemma Union_step:
  assumes inv: "uf_inv uf" and bx: "in_bounds (parent uf) x" and byy: "in_bounds (parent uf) y"
  shows "\<exists>uf1 l w. Union_uf uf x y = Some (Returned (find_in uf x \<noteq> find_in uf y, uf1))
           \<and> uf_inv uf1 \<and> length (parent uf1) = length (parent uf)
           \<and> (find_in uf x = find_in uf y \<longrightarrow> count uf1 = count uf
                 \<and> (\<forall>a. in_bounds (parent uf) a \<longrightarrow> find_in uf1 a = find_in uf a))
           \<and> (find_in uf x \<noteq> find_in uf y \<longrightarrow> count uf1 = count uf - 1
                 \<and> {Some l, Some w} = {find_in uf x, find_in uf y}
                 \<and> (\<forall>a. in_bounds (parent uf) a \<longrightarrow>
                        find_in uf1 a = (if find_in uf a = Some l then Some w else find_in uf a)))"
proof -
  from Union_find_in [OF assms] obtain uf1 where
    u: "Union_uf uf x y = Some (Returned (find_in uf x \<noteq> find_in uf y, uf1))" and
    i1: "uf_inv uf1" and ln: "length (parent uf1) = length (parent uf)" and
    same: "find_in uf x = find_in uf y \<longrightarrow> rank uf1 = rank uf \<and> count uf1 = count uf
             \<and> (\<forall>a. in_bounds (parent uf) a \<longrightarrow> find_in uf1 a = find_in uf a)" and
    diff: "find_in uf x \<noteq> find_in uf y \<longrightarrow> count uf1 = count uf - 1
             \<and> (\<exists>rx ry. find_in uf x = Some rx \<and> find_in uf y = Some ry
                   \<and> parent uf1 ! nat (union_loser uf rx ry) = union_winner uf rx ry
                   \<and> parent uf1 ! nat (union_winner uf rx ry) = union_winner uf rx ry
                   \<and> rank uf1 = (if rank uf ! nat rx = rank uf ! nat ry
                                 then (rank uf)[nat rx := rank uf ! nat rx + 1] else rank uf)
                   \<and> (\<forall>a. in_bounds (parent uf) a \<longrightarrow>
                         find_in uf1 a =
                           (if find_in uf a = Some (union_loser uf rx ry)
                            then Some (union_winner uf rx ry) else find_in uf a)))"
    by blast
  show ?thesis
  proof (cases "find_in uf x = find_in uf y")
    case True
    then show ?thesis using u i1 ln same by (intro exI [of _ uf1]) simp
  next
    case False
    with diff obtain rx ry where
      ct: "count uf1 = count uf - 1" and fx: "find_in uf x = Some rx" and fy: "find_in uf y = Some ry"
      and m: "\<forall>a. in_bounds (parent uf) a \<longrightarrow>
                find_in uf1 a =
                  (if find_in uf a = Some (union_loser uf rx ry)
                   then Some (union_winner uf rx ry) else find_in uf a)"
      by blast
    have s: "{Some (union_loser uf rx ry), Some (union_winner uf rx ry)} = {find_in uf x, find_in uf y}"
      using fx fy by (auto simp: union_loser_def union_winner_def)
    show ?thesis
      apply (rule exI [of _ uf1])
      apply (rule exI [of _ "union_loser uf rx ry"])
      apply (rule exI [of _ "union_winner uf rx ry"])
      using False u i1 ln ct s m apply simp
      done
  qed
qed

lemma card_step_same:
  assumes "fy = fx"
  shows "card (insert fy A - {fx}) = card (A - {fx})"
  using assms by simp

lemma card_step_diff:
  assumes fin: "finite A" and ne: "fx \<noteq> fy" and s: "{l, w} = {fx, fy}"
    and B: "B = (\<lambda>v. if v = l then w else v) ` A"
  shows "card (insert fy A - {fx}) = Suc (card (B - {w}))"
proof -
  have lw: "l \<noteq> w" using ne s by (metis doubleton_eq_iff)
  have "B - {w} = A - {fx, fy}"
  proof
    show "B - {w} \<subseteq> A - {fx, fy}"
    proof
      fix v assume "v \<in> B - {w}"
      then obtain a where a: "a \<in> A" "v = (if a = l then w else a)" "v \<noteq> w" using B by auto
      then have "a \<noteq> l" "v = a" by (auto split: if_splits)
      then have "a \<noteq> l" "a \<noteq> w" using a by auto
      then have "a \<notin> {fx, fy}" using s by auto
      then show "v \<in> A - {fx, fy}" using a \<open>v = a\<close> by simp
    qed
    show "A - {fx, fy} \<subseteq> B - {w}"
    proof
      fix v assume v: "v \<in> A - {fx, fy}"
      then have "v \<notin> {l, w}" using s by simp
      then have "v \<noteq> l" "v \<noteq> w" by auto
      then have "(if v = l then w else v) = v" by simp
      then have "v \<in> B" using v B by force
      then show "v \<in> B - {w}" using \<open>v \<noteq> w\<close> by simp
    qed
  qed
  moreover have "insert fy A - {fx} = insert fy (A - {fx, fy})" using ne by auto
  moreover have "fy \<notin> A - {fx, fy}" by simp
  moreover have "finite (A - {fx, fy})" using fin by simp
  ultimately show ?thesis by simp
qed

text \<open>
  A run of unions of \<open>x\<close> with the indices \<open>ys\<close>: it returns, and the count drops by the
  number of distinct components among \<open>ys\<close> other than the component of \<open>x\<close>.
\<close>

lemma union_all_inv:
  assumes "uf_inv uf" and "in_bounds (parent uf) x" and "list_all (in_bounds (parent uf)) ys"
  shows "\<exists>uf'. union_all uf x ys = Some (Returned uf') \<and> uf_inv uf'
           \<and> length (parent uf') = length (parent uf)
           \<and> count uf' = count uf - int (card (find_in uf ` set ys - {find_in uf x}))
           \<and> (\<forall>a b. in_bounds (parent uf) a \<and> in_bounds (parent uf) b \<and> find_in uf a = find_in uf b
                  \<longrightarrow> find_in uf' a = find_in uf' b)
           \<and> (\<forall>y \<in> set ys. find_in uf' y = find_in uf' x)"
  using assms
proof (induction ys arbitrary: uf)
  case Nil
  then show ?case by simp
next
  case (Cons y ys)
  note inv = Cons.prems(1) and bx = Cons.prems(2)
  have byy: "in_bounds (parent uf) y" and bys: "list_all (in_bounds (parent uf)) ys"
    using Cons.prems(3) by simp_all
  from Union_step [OF inv bx byy] obtain uf1 l w where
    u: "Union_uf uf x y = Some (Returned (find_in uf x \<noteq> find_in uf y, uf1))" and
    i1: "uf_inv uf1" and ln: "length (parent uf1) = length (parent uf)" and
    same: "find_in uf x = find_in uf y \<longrightarrow> count uf1 = count uf
             \<and> (\<forall>a. in_bounds (parent uf) a \<longrightarrow> find_in uf1 a = find_in uf a)" and
    diff: "find_in uf x \<noteq> find_in uf y \<longrightarrow> count uf1 = count uf - 1
             \<and> {Some l, Some w} = {find_in uf x, find_in uf y}
             \<and> (\<forall>a. in_bounds (parent uf) a \<longrightarrow>
                    find_in uf1 a = (if find_in uf a = Some l then Some w else find_in uf a))"
    by blast
  have bx1: "in_bounds (parent uf1) x" using bx ln by (simp add: in_bounds_def)
  have bys1: "list_all (in_bounds (parent uf1)) ys"
    using bys ln by (simp add: in_bounds_def list_all_iff)
  have bb: "in_bounds (parent uf1) a = in_bounds (parent uf) a" for a
    using ln by (simp add: in_bounds_def)
  from Cons.IH [OF i1 bx1 bys1] obtain uf' where
    r: "union_all uf1 x ys = Some (Returned uf')" and i': "uf_inv uf'" and
    ln': "length (parent uf') = length (parent uf1)" and
    ct': "count uf' = count uf1 - int (card (find_in uf1 ` set ys - {find_in uf1 x}))" and
    mono': "\<forall>a b. in_bounds (parent uf1) a \<and> in_bounds (parent uf1) b \<and> find_in uf1 a = find_in uf1 b
              \<longrightarrow> find_in uf' a = find_in uf' b" and
    all': "\<forall>y \<in> set ys. find_in uf' y = find_in uf' x"
    by blast
  have ua: "union_all uf x (y # ys) = Some (Returned uf')" using u r by simp
  have inb: "\<forall>a \<in> set ys. in_bounds (parent uf) a" using bys by (simp add: list_all_iff)
  have mono1: "find_in uf1 a = find_in uf1 b"
    if "in_bounds (parent uf) a" "in_bounds (parent uf) b" "find_in uf a = find_in uf b" for a b
    using that same diff by (cases "find_in uf x = find_in uf y") simp_all
  have mono: "\<forall>a b. in_bounds (parent uf) a \<and> in_bounds (parent uf) b \<and> find_in uf a = find_in uf b
                \<longrightarrow> find_in uf' a = find_in uf' b"
    using mono1 mono' bb by blast
  have xy1: "find_in uf1 y = find_in uf1 x"
  proof (cases "find_in uf x = find_in uf y")
    case True
    then show ?thesis using same bx byy by simp
  next
    case False
    then have s: "{Some l, Some w} = {find_in uf x, find_in uf y}" using diff by simp
    have "find_in uf1 x = Some w" "find_in uf1 y = Some w"
      using False diff bx byy s by (auto simp: doubleton_eq_iff)
    then show ?thesis by simp
  qed
  have "find_in uf' y = find_in uf' x" using xy1 mono' bx1 byy bb by blast
  then have all: "\<forall>v \<in> set (y # ys). find_in uf' v = find_in uf' x" using all' by simp
  have ct: "count uf' = count uf - int (card (find_in uf ` set (y # ys) - {find_in uf x}))"
  proof (cases "find_in uf x = find_in uf y")
    case True
    have "find_in uf1 ` set ys = find_in uf ` set ys" using True same inb by (intro image_cong) simp_all
    moreover have "find_in uf1 x = find_in uf x" "count uf1 = count uf" using True same bx by simp_all
    ultimately have "count uf' = count uf - int (card (find_in uf ` set ys - {find_in uf x}))"
      using ct' by simp
    then show ?thesis using card_step_same [of "find_in uf y" "find_in uf x"] True by simp
  next
    case False
    then have s: "{Some l, Some w} = {find_in uf x, find_in uf y}"
      and c1: "count uf1 = count uf - 1"
      and m: "\<forall>a. in_bounds (parent uf) a \<longrightarrow>
                 find_in uf1 a = (if find_in uf a = Some l then Some w else find_in uf a)"
      using diff by simp_all
    have x1: "find_in uf1 x = Some w" using False bx s m by (auto simp: doubleton_eq_iff)
    have B: "find_in uf1 ` set ys = (\<lambda>v. if v = Some l then Some w else v) ` (find_in uf ` set ys)"
      unfolding image_image using m inb by (intro image_cong) simp_all
    have "card (insert (find_in uf y) (find_in uf ` set ys) - {find_in uf x})
            = Suc (card (find_in uf1 ` set ys - {Some w}))"
      using False s B by (intro card_step_diff) simp_all
    then show ?thesis using ct' c1 x1 by simp
  qed
  show ?case
    using ua i' ln ln' ct mono all by (intro exI [of _ uf']) simp
qed


lemma in_bounds_update_fun: "in_bounds (p[i := v]) = in_bounds p"
  by (rule ext) simp

lemma bind_run_assoc:
  "bind_run (bind_run m f) g = bind_run m (\<lambda>a. bind_run (f a) g)"
  by (simp add: bind_run_def split: option.splits outcome.splits)

lemma linked_neighbors_Cons:
  "linked_neighbors b x y (d # ds) =
     (if is_link b (x + fst d) (y + snd d)
      then ((y + snd d) * Width b + (x + fst d)) # linked_neighbors b x y ds
      else linked_neighbors b x y ds)"
  by (simp add: linked_neighbors_def)

lemma linked_neighbors_UnionFind [simp]:
  "linked_neighbors (b\<lparr>UnionFind := u\<rparr>) x y ds = linked_neighbors b x y ds"
  by (simp add: linked_neighbors_def is_link_def in_grid_def tile_type_at_def)

text \<open>The loop of \<open>BuildBridge\<close> is a run of unions with the linked neighbours.\<close>

lemma connect_adjacent_union_all:
  assumes g: "grid_ok b" and i: "in_grid b x y"
    and d: "\<forall>d \<in> set dirs. \<bar>fst d\<bar> \<le> 1 \<and> \<bar>snd d\<bar> \<le> 1"
  shows "connect_adjacent b x y idx dirs =
           bind_run (union_all (UnionFind b) idx (linked_neighbors b x y dirs))
             (\<lambda>u. Some (Returned (b\<lparr>UnionFind := u\<rparr>)))"
  using g i d
proof (induction dirs arbitrary: b)
  case Nil
  then show ?case by (simp add: linked_neighbors_def)
next
  case (Cons dir dirs)
  note g = Cons.prems(1) and i = Cons.prems(2)
  have c: "i64 (x + fst dir) = x + fst dir" "i64 (y + snd dir) = y + snd dir"
    using neighbor_coords [OF g i, of "fst dir" "snd dir"] Cons.prems(3) by simp_all
  obtain t where t: "GetTile b (x + fst dir) (y + snd dir) = Returned t"
    using GetTile_grid [OF g] by blast
  have l: "land_or_bridge t = is_link b (x + fst dir) (y + snd dir)"
    using land_or_bridge_GetTile [OF g t] .
  have small: "\<forall>d \<in> set dirs. \<bar>fst d\<bar> \<le> 1 \<and> \<bar>snd d\<bar> \<le> 1" using Cons.prems(3) by simp
  show ?case
  proof (cases "is_link b (x + fst dir) (y + snd dir)")
    case False
    then show ?thesis
      using c t l Cons.IH [OF g i small] by (simp add: linked_neighbors_Cons)
  next
    case True
    then have ig: "in_grid b (x + fst dir) (y + snd dir)" by (simp add: is_link_def)
    have ci: "cell_index b (x + fst dir) (y + snd dir) = (y + snd dir) * Width b + (x + fst dir)"
      using grid_cell(1) [OF g ig] .
    have ih: "connect_adjacent (b\<lparr>UnionFind := u\<rparr>) x y idx dirs =
                bind_run (union_all u idx (linked_neighbors b x y dirs))
                  (\<lambda>u'. Some (Returned (b\<lparr>UnionFind := u'\<rparr>)))" for u
    proof -
      have "grid_ok (b\<lparr>UnionFind := u\<rparr>)" using g by (simp add: grid_ok_def)
      moreover have "in_grid (b\<lparr>UnionFind := u\<rparr>) x y" using i by (simp add: in_grid_def)
      ultimately show ?thesis using Cons.IH [of "b\<lparr>UnionFind := u\<rparr>"] small by simp
    qed
    show ?thesis
      using c t l True ci
      by (simp add: linked_neighbors_Cons bind_run_assoc ih case_prod_unfold)
  qed
qed

lemma SetTile_bridge:
  assumes g: "grid_ok b" and i: "in_grid b x y"
  shows "SetTile b x y TileBridge =
           Returned (b\<lparr>Tiles := (Tiles b)[nat (y * Width b + x) :=
                                    (Tiles b ! nat (y * Width b + x))\<lparr>Type := TileBridge\<rparr>]\<rparr>)"
proof -
  have "\<not> (x < 0 \<or> x \<ge> Width b \<or> y < 0 \<or> y \<ge> Height b)" using i by (auto simp: in_grid_def)
  then show ?thesis
    using grid_cell(1,2) [OF g i]
    by (simp add: SetTile_def Let_def TileBridge_def TileLand_def)
qed

lemma is_link_other_cell:
  assumes i: "in_grid b x y" and ne: "(x', y') \<noteq> (x, y)"
    and b1: "b1 = b\<lparr>Tiles := (Tiles b)[nat (y * Width b + x) := t]\<rparr>"
  shows "is_link b1 x' y' = is_link b x' y'"
proof (cases "in_grid b x' y'")
  case False
  then show ?thesis using b1 by (auto simp: is_link_def in_grid_def)
next
  case True
  have x: "0 \<le> x" "0 \<le> y" "0 \<le> Width b" and x': "0 \<le> x'" "0 \<le> y'"
    using i True by (simp_all add: in_grid_def)
  have "y' * Width b + x' \<noteq> y * Width b + x"
    using grid_cell_inj [OF i True] ne by auto
  moreover have "0 \<le> y' * Width b + x'" "0 \<le> y * Width b + x" using x x' by simp_all
  ultimately have "nat (y' * Width b + x') \<noteq> nat (y * Width b + x)" by simp
  then have "tile_type_at b1 x' y' = tile_type_at b x' y'"
    using b1 by (simp add: tile_type_at_def)
  then show ?thesis using b1 by (simp add: is_link_def in_grid_def)
qed

lemma linked_neighbors_after_set:
  assumes i: "in_grid b x y"
    and b1: "b1 = b\<lparr>Tiles := (Tiles b)[nat (y * Width b + x) := t]\<rparr>"
  shows "linked_neighbors b1 x y directions = linked_neighbors b x y directions"
proof -
  have "is_link b1 (x + fst d) (y + snd d) = is_link b (x + fst d) (y + snd d)"
    if "d \<in> set directions" for d
    using that by (intro is_link_other_cell [OF i _ b1]) (auto simp: directions_def)
  then have "filter (\<lambda>d. is_link b1 (x + fst d) (y + snd d)) directions
               = filter (\<lambda>d. is_link b (x + fst d) (y + snd d)) directions"
    by (intro filter_cong) simp_all
  then show ?thesis using b1 by (simp add: linked_neighbors_def)
qed

lemma linked_neighbors_in_bounds:
  assumes g: "grid_ok b"
  shows "list_all (in_bounds (Tiles b)) (linked_neighbors b x y dirs)"
  using grid_cell(2) [OF g] by (auto simp: linked_neighbors_def list_all_iff is_link_def)

text \<open>
  C5. On every well-formed board and at every coordinate where \<open>CanBuildBridge\<close> is
  true, \<open>BuildBridge\<close> returns; the cell has become \<open>Bridge\<close> and nothing else of the
  grid or the island registry has changed; the union-find structure is the result of
  unioning the cell's index with each of its (between 1 and 4) orthogonal neighbours that
  hold \<open>Land\<close> or \<open>Bridge\<close>, every such neighbour is then connected to the cell; the
  component count has not increased, and it has decreased by exactly the number of
  distinct components among those neighbours other than the cell's own component.
\<close>

theorem C5_build_bridge_merges:
  assumes inv: "board_inv b" and can: "CanBuildBridge b x y = Returned True"
  shows "\<exists>b'. BuildBridge b x y = Some (Returned b') \<and> board_inv b'
           \<and> Width b' = Width b \<and> Height b' = Height b \<and> Islands b' = Islands b
           \<and> Tiles b' = (Tiles b)[nat (y * Width b + x) :=
                             (Tiles b ! nat (y * Width b + x))\<lparr>Type := TileBridge\<rparr>]
           \<and> tile_type_at b' x y = TileBridge
           \<and> union_all (UnionFind b) (y * Width b + x) (linked_neighbors b x y directions)
                = Some (Returned (UnionFind b'))
           \<and> 1 \<le> length (linked_neighbors b x y directions)
           \<and> length (linked_neighbors b x y directions) \<le> 4
           \<and> (\<forall>n \<in> set (linked_neighbors b x y directions).
                 connected_in (UnionFind b') (y * Width b + x) n)
           \<and> ComponentCount (UnionFind b') \<le> ComponentCount (UnionFind b)
           \<and> ComponentCount (UnionFind b) - ComponentCount (UnionFind b')
                = int (card (find_in (UnionFind b) ` set (linked_neighbors b x y directions)
                              - {find_in (UnionFind b) (y * Width b + x)}))"
proof -
  let ?idx = "y * Width b + x" and ?ns = "linked_neighbors b x y directions"
  let ?u = "UnionFind b"
  have g: "grid_ok b" and ui: "uf_inv ?u" and ln: "length (parent ?u) = length (Tiles b)"
    and isl: "list_all (in_bounds (Tiles b)) (Islands b)"
    using inv by (simp_all add: board_inv_def)
  have can': "in_grid b x y \<and> tile_type_at b x y = TileSea
                \<and> (\<exists>d \<in> set directions. is_link b (x + fst d) (y + snd d))"
    using can unfolding CanBuildBridge_grid [OF g] by simp
  then have i: "in_grid b x y" by simp
  define b1 where "b1 = b\<lparr>Tiles := (Tiles b)[nat ?idx := (Tiles b ! nat ?idx)\<lparr>Type := TileBridge\<rparr>]\<rparr>"
  have st: "SetTile b x y TileBridge = Returned b1"
    using SetTile_bridge [OF g i] by (simp add: b1_def)
  have g1: "grid_ok b1" using g by (simp add: b1_def grid_ok_def)
  have i1: "in_grid b1 x y" using i by (simp add: b1_def in_grid_def)
  have ci1: "cell_index b1 x y = ?idx" using grid_cell(1) [OF g1 i1] by (simp add: b1_def)
  have ns1: "linked_neighbors b1 x y directions = ?ns"
    using linked_neighbors_after_set [OF i] b1_def by blast
  have u1: "UnionFind b1 = ?u" by (simp add: b1_def)
  have bidx: "in_bounds (parent ?u) ?idx"
    using grid_cell(2) [OF g i] ln by (simp add: in_bounds_def)
  have bns: "list_all (in_bounds (parent ?u)) ?ns"
    using linked_neighbors_in_bounds [OF g, of x y directions] ln
    by (simp add: in_bounds_def list_all_iff)
  from union_all_inv [OF ui bidx bns] obtain u' where
    ua: "union_all ?u ?idx ?ns = Some (Returned u')" and i': "uf_inv u'" and
    ln': "length (parent u') = length (parent ?u)" and
    ct: "count u' = count ?u - int (card (find_in ?u ` set ?ns - {find_in ?u ?idx}))" and
    al: "\<forall>n \<in> set ?ns. find_in u' n = find_in u' ?idx"
    by blast
  define b' where "b' = b1\<lparr>UnionFind := u'\<rparr>"
  have bb: "BuildBridge b x y = Some (Returned b')"
    using can st ci1 ns1 u1 ua connect_adjacent_union_all [OF g1 i1 directions_small, of ?idx]
    by (simp add: BuildBridge_def b'_def)
  have inv': "board_inv b'"
    using g1 i' ln' ln isl by (simp add: board_inv_def b'_def b1_def grid_ok_def in_bounds_update_fun)
  have "nat ?idx < length (Tiles b)" using grid_cell(2) [OF g i] by (auto simp: in_bounds_def)
  then have tb: "tile_type_at b' x y = TileBridge"
    by (simp add: tile_type_at_def b'_def b1_def)
  have len1: "1 \<le> length ?ns"
  proof -
    from can' obtain d where "d \<in> set directions" "is_link b (x + fst d) (y + snd d)" by blast
    then have "filter (\<lambda>d. is_link b (x + fst d) (y + snd d)) directions \<noteq> []"
      by (auto simp: filter_empty_conv)
    then show ?thesis by (cases "filter (\<lambda>d. is_link b (x + fst d) (y + snd d)) directions")
        (simp_all add: linked_neighbors_def)
  qed
  have len4: "length ?ns \<le> 4"
    using length_filter_le [of "\<lambda>d. is_link b (x + fst d) (y + snd d)" directions]
    by (simp add: linked_neighbors_def directions_def)
  have cn: "\<forall>n \<in> set ?ns. connected_in u' ?idx n"
  proof
    fix n assume n: "n \<in> set ?ns"
    have "in_bounds (parent u') n" "in_bounds (parent u') ?idx"
      using bns bidx n ln' by (simp_all add: in_bounds_def list_all_iff)
    then show "connected_in u' ?idx n"
      using connected_in_find_in [OF i', of ?idx n] al n by simp
  qed
  show ?thesis
    apply (rule exI [of _ b'])
    using bb inv' tb ua len1 len4 cn ct
    apply (simp add: ComponentCount_def)
    apply (simp add: b'_def b1_def)
    done
qed


theorem C5_build_bridge_merges_witness:
  "board_inv \<lparr>Width = 3, Height = 1,
              Tiles = [\<lparr>Type = TileLand\<rparr>, \<lparr>Type = TileSea\<rparr>, \<lparr>Type = TileLand\<rparr>],
              UnionFind = \<lparr>parent = [0, 1, 2], rank = [0, 0, 0], count = 3\<rparr>, Islands = [0, 2]\<rparr>
   \<and> CanBuildBridge \<lparr>Width = 3, Height = 1,
              Tiles = [\<lparr>Type = TileLand\<rparr>, \<lparr>Type = TileSea\<rparr>, \<lparr>Type = TileLand\<rparr>],
              UnionFind = \<lparr>parent = [0, 1, 2], rank = [0, 0, 0], count = 3\<rparr>, Islands = [0, 2]\<rparr> 1 0
       = Returned True
   \<and> BuildBridge \<lparr>Width = 3, Height = 1,
              Tiles = [\<lparr>Type = TileLand\<rparr>, \<lparr>Type = TileSea\<rparr>, \<lparr>Type = TileLand\<rparr>],
              UnionFind = \<lparr>parent = [0, 1, 2], rank = [0, 0, 0], count = 3\<rparr>, Islands = [0, 2]\<rparr> 1 0
       = Some (Returned \<lparr>Width = 3, Height = 1,
              Tiles = [\<lparr>Type = TileLand\<rparr>, \<lparr>Type = TileBridge\<rparr>, \<lparr>Type = TileLand\<rparr>],
              UnionFind = \<lparr>parent = [1, 1, 1], rank = [0, 1, 0], count = 1\<rparr>, Islands = [0, 2]\<rparr>)
   \<and> linked_neighbors \<lparr>Width = 3, Height = 1,
              Tiles = [\<lparr>Type = TileLand\<rparr>, \<lparr>Type = TileSea\<rparr>, \<lparr>Type = TileLand\<rparr>],
              UnionFind = \<lparr>parent = [0, 1, 2], rank = [0, 0, 0], count = 3\<rparr>, Islands = [0, 2]\<rparr>
          1 0 directions = [2, 0]
   \<and> card (find_in \<lparr>parent = [0, 1, 2], rank = [0, 0, 0], count = 3\<rparr> ` set [2, 0]
            - {find_in \<lparr>parent = [0, 1, 2], rank = [0, 0, 0], count = 3\<rparr> 1}) = 2"
proof -
  let ?u = "\<lparr>parent = [0, 1, 2], rank = [0, 0, 0], count = (3::int)\<rparr>"
  let ?b = "\<lparr>Width = 3, Height = 1,
              Tiles = [\<lparr>Type = TileLand\<rparr>, \<lparr>Type = TileSea\<rparr>, \<lparr>Type = TileLand\<rparr>],
              UnionFind = ?u, Islands = [0, 2]\<rparr>"
  let ?b' = "\<lparr>Width = 3, Height = 1,
              Tiles = [\<lparr>Type = TileLand\<rparr>, \<lparr>Type = TileBridge\<rparr>, \<lparr>Type = TileLand\<rparr>],
              UnionFind = \<lparr>parent = [1, 1, 1], rank = [0, 1, 0], count = 1\<rparr>, Islands = [0, 2]\<rparr>"
  have "uf_check ?u" by code_simp
  then have "uf_inv ?u" by (rule uf_check_inv)
  then have inv: "board_inv ?b" by (simp add: board_inv_def grid_ok_def in_bounds_def)
  have can: "CanBuildBridge ?b 1 0 = Returned True" by code_simp
  have ev: "BuildBridge ?b 1 0 = Some (Returned ?b')" by code_simp
  have ns: "linked_neighbors ?b 1 0 directions = [2, 0]" by code_simp
  from C5_build_bridge_merges [OF inv can] ev ns
  have "ComponentCount (UnionFind ?b) - ComponentCount (UnionFind ?b')
          = int (card (find_in ?u ` set [2, 0] - {find_in ?u 1}))"
    by simp
  then have "card (find_in ?u ` set [2, 0] - {find_in ?u 1}) = 2"
    by (simp add: ComponentCount_def)
  then show ?thesis using inv can ev ns by simp
qed

subsection \<open>The level-1 scenario\<close>

text \<open>
  C2 (as amended). On the 5 by 5 board of level 1 (\<open>Land\<close> at (1,1), (3,1), (2,3), all
  other tiles \<open>Sea\<close>), \<open>BuildBridge 2 1\<close> and then \<open>BuildBridge 2 2\<close> both pass
  \<open>CanBuildBridge\<close> and succeed; \<open>IsAllConnected\<close> is false before them and true
  after them. The component count covers every cell of the grid, sea cells included: it
  is 25 at the start, 23 after the first build and 21 after the second (two merging
  unions per build). The number of distinct components among the three island cells goes
  from 3 to 2 to 1.
\<close>

theorem C2_level1_scenario:
  "\<exists>b0 b1 b2 c0 c2.
     level1_after [] = Some (Returned b0)
     \<and> Width b0 = 5 \<and> Height b0 = 5 \<and> Islands b0 = [6, 8, 17]
     \<and> tile_type_at b0 1 1 = TileLand \<and> tile_type_at b0 3 1 = TileLand
     \<and> tile_type_at b0 2 3 = TileLand
     \<and> count_kind b0 TileLand = 3 \<and> count_kind b0 TileSea = 22
     \<and> CanBuildBridge b0 2 1 = Returned True \<and> BuildBridge b0 2 1 = Some (Returned b1)
     \<and> CanBuildBridge b1 2 2 = Returned True \<and> BuildBridge b1 2 2 = Some (Returned b2)
     \<and> level1_after [(2, 1), (2, 2)] = Some (Returned b2)
     \<and> IsAllConnected b0 = Some (Returned (False, c0))
     \<and> IsAllConnected b2 = Some (Returned (True, c2))
     \<and> ComponentCount (UnionFind b0) = 25
     \<and> ComponentCount (UnionFind b1) = 23
     \<and> ComponentCount (UnionFind b2) = 21
     \<and> island_components b0 = 3 \<and> island_components b1 = 2 \<and> island_components b2 = 1"
proof -
  let ?sea = "\<lparr>Type = TileSea\<rparr>" and ?land = "\<lparr>Type = TileLand\<rparr>" and ?bridge = "\<lparr>Type = TileBridge\<rparr>"
  let ?b0 = "\<lparr>Width = 5, Height = 5,
       Tiles = [?sea, ?sea, ?sea, ?sea, ?sea,
                ?sea, ?land, ?sea, ?land, ?sea,
                ?sea, ?sea, ?sea, ?sea, ?sea,
                ?sea, ?sea, ?land, ?sea, ?sea,
                ?sea, ?sea, ?sea, ?sea, ?sea],
       UnionFind = \<lparr>parent = [0, 1, 2, 3, 4, 5, 6, 7, 8, 9, 10, 11, 12, 13, 14, 15, 16, 17,
                               18, 19, 20, 21, 22, 23, 24],
                    rank = [0, 0, 0, 0, 0, 0, 0, 0, 0, 0, 0, 0, 0, 0, 0, 0, 0, 0, 0, 0,
                            0, 0, 0, 0, 0],
                    count = 25\<rparr>,
       Islands = [6, 8, 17]\<rparr>"
  let ?b1 = "\<lparr>Width = 5, Height = 5,
       Tiles = [?sea, ?sea, ?sea, ?sea, ?sea,
                ?sea, ?land, ?bridge, ?land, ?sea,
                ?sea, ?sea, ?sea, ?sea, ?sea,
                ?sea, ?sea, ?land, ?sea, ?sea,
                ?sea, ?sea, ?sea, ?sea, ?sea],
       UnionFind = \<lparr>parent = [0, 1, 2, 3, 4, 5, 7, 7, 7, 9, 10, 11, 12, 13, 14, 15, 16, 17,
                               18, 19, 20, 21, 22, 23, 24],
                    rank = [0, 0, 0, 0, 0, 0, 0, 1, 0, 0, 0, 0, 0, 0, 0, 0, 0, 0, 0, 0,
                            0, 0, 0, 0, 0],
                    count = 23\<rparr>,
       Islands = [6, 8, 17]\<rparr>"
  let ?b2 = "\<lparr>Width = 5, Height = 5,
       Tiles = [?sea, ?sea, ?sea, ?sea, ?sea,
                ?sea, ?land, ?bridge, ?land, ?sea,
                ?sea, ?sea, ?bridge, ?sea, ?sea,
                ?sea, ?sea, ?land, ?sea, ?sea,
                ?sea, ?sea, ?sea, ?sea, ?sea],
       UnionFind = \<lparr>parent = [0, 1, 2, 3, 4, 5, 7, 12, 7, 9, 10, 11, 12, 13, 14, 15, 16, 12,
                               18, 19, 20, 21, 22, 23, 24],
                    rank = [0, 0, 0, 0, 0, 0, 0, 1, 0, 0, 0, 0, 2, 0, 0, 0, 0, 0, 0, 0,
                            0, 0, 0, 0, 0],
                    count = 21\<rparr>,
       Islands = [6, 8, 17]\<rparr>"
  let ?c2 = "?b2\<lparr>UnionFind := \<lparr>parent = [0, 1, 2, 3, 4, 5, 12, 12, 12, 9, 10, 11, 12, 13, 14, 15,
                                          16, 12, 18, 19, 20, 21, 22, 23, 24],
                                rank = [0, 0, 0, 0, 0, 0, 0, 1, 0, 0, 0, 0, 2, 0, 0, 0, 0, 0, 0, 0,
                                        0, 0, 0, 0, 0],
                                count = 21\<rparr>\<rparr>"
  have s0: "level1_after [] = Some (Returned ?b0)" by code_simp
  have t0: "tile_type_at ?b0 1 1 = TileLand" "tile_type_at ?b0 3 1 = TileLand"
    "tile_type_at ?b0 2 3 = TileLand" "count_kind ?b0 TileLand = 3" "count_kind ?b0 TileSea = 22"
    by code_simp+
  have c1: "CanBuildBridge ?b0 2 1 = Returned True" by code_simp
  have m1: "BuildBridge ?b0 2 1 = Some (Returned ?b1)" by code_simp
  have c2: "CanBuildBridge ?b1 2 2 = Returned True" by code_simp
  have m2: "BuildBridge ?b1 2 2 = Some (Returned ?b2)" by code_simp
  have s2: "level1_after [(2, 1), (2, 2)] = Some (Returned ?b2)" by code_simp
  have a0: "IsAllConnected ?b0 = Some (Returned (False, ?b0))" by code_simp
  have a2: "IsAllConnected ?b2 = Some (Returned (True, ?c2))" by code_simp
  have k: "island_components ?b0 = 3" "island_components ?b1 = 2" "island_components ?b2 = 1"
    by code_simp+
  show ?thesis
    apply (rule exI [of _ ?b0])
    apply (rule exI [of _ ?b1])
    apply (rule exI [of _ ?b2])
    apply (rule exI [of _ ?b0])
    apply (rule exI [of _ ?c2])
    using s0 t0 c1 m1 c2 m2 s2 a0 a2 k
    apply (simp add: ComponentCount_def)
    done
qed

text \<open>
  C2 as stated fails on the count: \<open>NewUnionFind\<close> starts with one component per cell,
  so the component count of the level-1 board is 25, not 3, and after the two builds it
  is 21, not 1.
\<close>

theorem C2_counterexample:
  "component_count_after [] = Some (Returned 25)
   \<and> component_count_after [(2, 1), (2, 2)] = Some (Returned 21)"
  by code_simp


subsection \<open>The achievement engine: checks\<close>

lemma unlocked_count_update_mono:
  "map_of al k = Some a \<Longrightarrow> (Unlocked a \<longrightarrow> Unlocked a') \<Longrightarrow>
   unlocked_count al \<le> unlocked_count (AList.update k a' al)"
proof (induction al)
  case Nil
  then show ?case by simp
next
  case (Cons e al)
  then show ?case by (cases e) (auto simp: unlocked_count_def split: if_splits)
qed

lemma unlocked_count_update_same:
  "map_of al k = Some a \<Longrightarrow> k = AchievementMaster \<or> Unlocked a' = Unlocked a \<Longrightarrow>
   unlocked_count (AList.update k a' al) = unlocked_count al"
proof (induction al)
  case Nil
  then show ?case by simp
next
  case (Cons e al)
  then show ?case by (cases e) (auto simp: unlocked_count_def split: if_splits)
qed

lemma deliveries_notify:
  "deliveries (notifyListeners s a) j
     = deliveries s j @ (if ID a = j then listeners s else [])"
  by (simp add: deliveries_def notifyListeners_def filter_map comp_def)

lemma check_rel_refl: "check_rel s s"
  by (simp add: check_rel_def)

lemma check_rel_trans:
  assumes "check_rel s s'" and "check_rel s' s''"
  shows "check_rel s s''"
  unfolding check_rel_def
proof (intro conjI allI impI)
  show "listeners s'' = listeners s" "statistics s'' = statistics s"
    "dom (map_of (achievements s'')) = dom (map_of (achievements s))"
    using assms by (simp_all add: check_rel_def)
next
  fix j a assume a: "map_of (achievements s) j = Some a"
  from assms(1) a obtain a' where a': "map_of (achievements s') j = Some a'"
    and e1: "ID a' = ID a" "Target a' = Target a" "Unlocked a \<longrightarrow> a' = a"
      "j \<noteq> AchievementMaster \<longrightarrow> Progress a' = Progress a" "Progress a \<le> Progress a'"
      "\<not> Unlocked a \<and> Unlocked a' \<longrightarrow> Target a \<le> Progress a'"
    and d1: "deliveries s' j = deliveries s j
               @ (if \<not> Unlocked a \<and> Unlocked a' then listeners s else [])"
    unfolding check_rel_def by blast
  from assms(2) a' obtain a'' where a'': "map_of (achievements s'') j = Some a''"
    and e2: "ID a'' = ID a'" "Target a'' = Target a'" "Unlocked a' \<longrightarrow> a'' = a'"
      "j \<noteq> AchievementMaster \<longrightarrow> Progress a'' = Progress a'" "Progress a' \<le> Progress a''"
      "\<not> Unlocked a' \<and> Unlocked a'' \<longrightarrow> Target a' \<le> Progress a''"
    and d2: "deliveries s'' j = deliveries s' j
               @ (if \<not> Unlocked a' \<and> Unlocked a'' then listeners s' else [])"
    unfolding check_rel_def by blast
  have l: "listeners s' = listeners s" using assms(1) by (simp add: check_rel_def)
  have d: "deliveries s'' j = deliveries s j
             @ (if \<not> Unlocked a \<and> Unlocked a'' then listeners s else [])"
    using d1 d2 l e1(3) e2(3) by (cases "Unlocked a"; cases "Unlocked a'") auto
  have u: "\<not> Unlocked a \<and> Unlocked a'' \<longrightarrow> Target a \<le> Progress a''"
    using e1 e2 by (cases "Unlocked a'") auto
  show "\<exists>a'. map_of (achievements s'') j = Some a' \<and> ID a' = ID a \<and> Target a' = Target a
           \<and> (Unlocked a \<longrightarrow> a' = a)
           \<and> (j \<noteq> AchievementMaster \<longrightarrow> Progress a' = Progress a)
           \<and> Progress a \<le> Progress a'
           \<and> (\<not> Unlocked a \<and> Unlocked a' \<longrightarrow> Target a \<le> Progress a')
           \<and> deliveries s'' j = deliveries s j
                @ (if \<not> Unlocked a \<and> Unlocked a' then listeners s else [])"
    using a'' e1 e2 d u by (intro exI [of _ a'']) auto
qed

text \<open>The unlock step of \<open>checkAchievement\<close>.\<close>

lemma unlock_step:
  assumes k: "keyed s" and a: "map_of (achievements s) i = Some a"
    and l: "\<not> Unlocked a" and t: "Target a \<le> Progress a"
    and s1: "s1 = notifyListeners
                    (s\<lparr>achievements := AList.update i (a\<lparr>Unlocked := True, UnlockedAt := Some now\<rparr>)
                                          (achievements s)\<rparr>)
                    (a\<lparr>Unlocked := True, UnlockedAt := Some now\<rparr>)"
  shows "check_rel s s1" and "keyed s1"
    and "\<forall>j. j \<noteq> i \<longrightarrow> settled s j \<longrightarrow> settled s1 j" and "settled s1 i"
proof -
  let ?a1 = "a\<lparr>Unlocked := True, UnlockedAt := Some now\<rparr>"
  have al1: "achievements s1 = AList.update i ?a1 (achievements s)"
    using s1 by (simp add: notifyListeners_def)
  have m1: "map_of (achievements s1) = (map_of (achievements s))(i \<mapsto> ?a1)"
    using al1 by (simp add: update_conv')
  have ida: "ID a = i" using k a unfolding keyed_def by blast
  have dl: "deliveries s1 j = deliveries s j @ (if i = j then listeners s else [])" for j
    using ida unfolding s1 deliveries_notify by (simp add: deliveries_def)
  show "check_rel s s1"
    unfolding check_rel_def
  proof (intro conjI allI impI)
    show "listeners s1 = listeners s" "statistics s1 = statistics s"
      using s1 by (simp_all add: notifyListeners_def)
    show "dom (map_of (achievements s1)) = dom (map_of (achievements s))"
      using m1 a by auto
  next
    fix j b assume b: "map_of (achievements s) j = Some b"
    show "\<exists>a'. map_of (achievements s1) j = Some a' \<and> ID a' = ID b \<and> Target a' = Target b
           \<and> (Unlocked b \<longrightarrow> a' = b)
           \<and> (j \<noteq> AchievementMaster \<longrightarrow> Progress a' = Progress b)
           \<and> Progress b \<le> Progress a'
           \<and> (\<not> Unlocked b \<and> Unlocked a' \<longrightarrow> Target b \<le> Progress a')
           \<and> deliveries s1 j = deliveries s j
                @ (if \<not> Unlocked b \<and> Unlocked a' then listeners s else [])"
    proof (cases "j = i")
      case True
      then have "b = a" using a b by simp
      then show ?thesis using True m1 l t dl [of j] by (intro exI [of _ ?a1]) simp
    next
      case False
      then show ?thesis using m1 b dl [of j] by (intro exI [of _ b]) simp
    qed
  qed
  have uc: "unlocked_count (achievements s) \<le> unlocked_count (achievements s1)"
    using al1 unlocked_count_update_mono [OF a, of ?a1] by simp
  show "keyed s1"
    unfolding keyed_def
  proof (intro conjI allI impI)
    show "distinct (map fst (achievements s1))"
      using k al1 by (simp add: keyed_def distinct_update)
  next
    fix j b assume b: "map_of (achievements s1) j = Some b"
    show "ID b = j"
    proof (cases "j = i")
      case True
      then have "b = ?a1" using b m1 by simp
      then show ?thesis using True ida by simp
    next
      case False
      then have "map_of (achievements s) j = Some b" using b m1 by simp
      then show ?thesis using k unfolding keyed_def by blast
    qed
  next
    fix j b assume b: "map_of (achievements s1) j = Some b" and jm: "j = AchievementMaster"
    show "Unlocked b \<or> Progress b \<le> unlocked_count (achievements s1)"
    proof (cases "j = i")
      case True
      then have "b = ?a1" using b m1 by simp
      then show ?thesis by simp
    next
      case False
      then have "map_of (achievements s) j = Some b" using b m1 by simp
      then have "Unlocked b \<or> Progress b \<le> unlocked_count (achievements s)"
        using k jm unfolding keyed_def by blast
      then show ?thesis using uc by auto
    qed
  qed
  show "\<forall>j. j \<noteq> i \<longrightarrow> settled s j \<longrightarrow> settled s1 j"
    using m1 by (simp add: settled_def)
  show "settled s1 i" using m1 by (simp add: settled_def)
qed

text \<open>The step of \<open>checkMasterAchievement\<close> that stores the count as progress.\<close>

lemma master_progress_step:
  assumes k: "keyed s" and m: "map_of (achievements s) AchievementMaster = Some m"
    and l: "\<not> Unlocked m"
    and s1: "s1 = s\<lparr>achievements :=
                     AList.update AchievementMaster
                       (m\<lparr>Progress := unlocked_count (achievements s)\<rparr>) (achievements s)\<rparr>"
  shows "check_rel s s1" and "keyed s1"
    and "\<forall>j. j \<noteq> AchievementMaster \<longrightarrow> settled s j \<longrightarrow> settled s1 j"
proof -
  let ?m1 = "m\<lparr>Progress := unlocked_count (achievements s)\<rparr>"
  have al1: "achievements s1 = AList.update AchievementMaster ?m1 (achievements s)"
    using s1 by simp
  have m1: "map_of (achievements s1) = (map_of (achievements s))(AchievementMaster \<mapsto> ?m1)"
    using al1 by (simp add: update_conv')
  have pm: "Progress m \<le> unlocked_count (achievements s)"
    using k m l unfolding keyed_def by blast
  have dl: "deliveries s1 j = deliveries s j" for j using s1 by (simp add: deliveries_def)
  show "check_rel s s1"
    unfolding check_rel_def
  proof (intro conjI allI impI)
    show "listeners s1 = listeners s" "statistics s1 = statistics s" using s1 by simp_all
    show "dom (map_of (achievements s1)) = dom (map_of (achievements s))"
      using m1 m by auto
  next
    fix j b assume b: "map_of (achievements s) j = Some b"
    show "\<exists>a'. map_of (achievements s1) j = Some a' \<and> ID a' = ID b \<and> Target a' = Target b
           \<and> (Unlocked b \<longrightarrow> a' = b)
           \<and> (j \<noteq> AchievementMaster \<longrightarrow> Progress a' = Progress b)
           \<and> Progress b \<le> Progress a'
           \<and> (\<not> Unlocked b \<and> Unlocked a' \<longrightarrow> Target b \<le> Progress a')
           \<and> deliveries s1 j = deliveries s j
                @ (if \<not> Unlocked b \<and> Unlocked a' then listeners s else [])"
    proof (cases "j = AchievementMaster")
      case True
      then have "b = m" using m b by simp
      then show ?thesis using True m1 l pm dl [of j] by (intro exI [of _ ?m1]) simp
    next
      case False
      then show ?thesis using m1 b dl [of j] by (intro exI [of _ b]) simp
    qed
  qed
  have uc: "unlocked_count (achievements s1) = unlocked_count (achievements s)"
    using al1 unlocked_count_update_same [OF m, of ?m1] by simp
  show "keyed s1"
    unfolding keyed_def
  proof (intro conjI allI impI)
    show "distinct (map fst (achievements s1))"
      using k al1 by (simp add: keyed_def distinct_update)
  next
    fix j b assume b: "map_of (achievements s1) j = Some b"
    show "ID b = j"
    proof (cases "j = AchievementMaster")
      case True
      then have "b = ?m1" using b m1 by simp
      moreover have "ID m = AchievementMaster" using k m unfolding keyed_def by blast
      ultimately show ?thesis using True by simp
    next
      case False
      then have "map_of (achievements s) j = Some b" using b m1 by simp
      then show ?thesis using k unfolding keyed_def by blast
    qed
  next
    fix j b assume b: "map_of (achievements s1) j = Some b" and jm: "j = AchievementMaster"
    then have "b = ?m1" using m1 by simp
    then show "Unlocked b \<or> Progress b \<le> unlocked_count (achievements s1)" using uc by simp
  qed
  show "\<forall>j. j \<noteq> AchievementMaster \<longrightarrow> settled s j \<longrightarrow> settled s1 j"
    using m1 by (simp add: settled_def)
qed


text \<open>
  What a check does, by induction along the mutual recursion of \<open>checkAchievement\<close> and
  \<open>checkMasterAchievement\<close>.
\<close>

lemma check_both:
  fixes s :: AchievementSystem and now :: int and i :: AchievementType
    and s0 :: AchievementSystem and now0 :: int
  shows "keyed s \<longrightarrow>
           check_rel s (checkAchievement s now i) \<and> keyed (checkAchievement s now i)
           \<and> ((\<forall>j. j \<noteq> i \<longrightarrow> settled s j) \<longrightarrow> (\<forall>j. settled (checkAchievement s now i) j))"
    and "keyed s0 \<longrightarrow>
           check_rel s0 (checkMasterAchievement s0 now0) \<and> keyed (checkMasterAchievement s0 now0)
           \<and> ((\<forall>j. j \<noteq> AchievementMaster \<longrightarrow> settled s0 j)
                \<longrightarrow> (\<forall>j. settled (checkMasterAchievement s0 now0) j))"
proof (induction s now i and s0 now0 rule: checkAchievement_checkMasterAchievement.induct)
  case (1 sys now i)
  show ?case
  proof (intro impI)
    assume k: "keyed sys"
    show "check_rel sys (checkAchievement sys now i) \<and> keyed (checkAchievement sys now i)
           \<and> ((\<forall>j. j \<noteq> i \<longrightarrow> settled sys j) \<longrightarrow> (\<forall>j. settled (checkAchievement sys now i) j))"
    proof (cases "map_of (achievements sys) i")
      case None
      then have e: "checkAchievement sys now i = sys" by (subst checkAchievement.simps) simp
      have "settled sys i" using None by (simp add: settled_def)
      then show ?thesis unfolding e using k check_rel_refl by metis
    next
      case (Some a)
      show ?thesis
      proof (cases "Unlocked a \<or> Progress a < Target a")
        case True
        then have e: "checkAchievement sys now i = sys"
          using Some by (subst checkAchievement.simps) auto
        have "settled sys i" using Some True by (simp add: settled_def)
        then show ?thesis unfolding e using k check_rel_refl by metis
      next
        case False
        then have l: "\<not> Unlocked a" and t: "Target a \<le> Progress a" by auto
        define s1 where "s1 = notifyListeners
              (sys\<lparr>achievements := AList.update i (a\<lparr>Unlocked := True, UnlockedAt := Some now\<rparr>)
                                      (achievements sys)\<rparr>)
              (a\<lparr>Unlocked := True, UnlockedAt := Some now\<rparr>)"
        have e: "checkAchievement sys now i = checkMasterAchievement s1 now"
          using Some l t unfolding s1_def by (subst checkAchievement.simps) simp
        note u = unlock_step [OF k Some l t s1_def]
        have ih: "keyed s1 \<longrightarrow>
           check_rel s1 (checkMasterAchievement s1 now) \<and> keyed (checkMasterAchievement s1 now)
           \<and> ((\<forall>j. j \<noteq> AchievementMaster \<longrightarrow> settled s1 j)
                \<longrightarrow> (\<forall>j. settled (checkMasterAchievement s1 now) j))"
          using "1.IH" [OF Some l t] unfolding s1_def .
        have r: "check_rel sys (checkMasterAchievement s1 now)"
          using check_rel_trans [OF u(1)] ih u(2) by blast
        have st: "(\<forall>j. j \<noteq> i \<longrightarrow> settled sys j) \<longrightarrow> (\<forall>j. settled (checkMasterAchievement s1 now) j)"
          using u(3,4) ih u(2) by metis
        show ?thesis unfolding e using r ih u(2) st by blast
      qed
    qed
  qed
next
  case (2 sys now)
  show ?case
  proof (intro impI)
    assume k: "keyed sys"
    show "check_rel sys (checkMasterAchievement sys now) \<and> keyed (checkMasterAchievement sys now)
           \<and> ((\<forall>j. j \<noteq> AchievementMaster \<longrightarrow> settled sys j)
                \<longrightarrow> (\<forall>j. settled (checkMasterAchievement sys now) j))"
    proof (cases "map_of (achievements sys) AchievementMaster")
      case None
      then have e: "checkMasterAchievement sys now = sys"
        by (subst checkMasterAchievement.simps) simp
      have "settled sys AchievementMaster" using None by (simp add: settled_def)
      then show ?thesis unfolding e using k check_rel_refl by metis
    next
      case (Some m)
      show ?thesis
      proof (cases "Unlocked m")
        case True
        then have e: "checkMasterAchievement sys now = sys"
          using Some by (subst checkMasterAchievement.simps) simp
        have "settled sys AchievementMaster" using Some True by (simp add: settled_def)
        then show ?thesis unfolding e using k check_rel_refl by metis
      next
        case False
        define s1 where "s1 = sys\<lparr>achievements :=
                     AList.update AchievementMaster
                       (m\<lparr>Progress := unlocked_count (achievements sys)\<rparr>) (achievements sys)\<rparr>"
        have e: "checkMasterAchievement sys now = checkAchievement s1 now AchievementMaster"
          using Some False unfolding s1_def unlocked_count_def
          by (subst checkMasterAchievement.simps) simp
        note u = master_progress_step [OF k Some False s1_def]
        have ih: "keyed s1 \<longrightarrow>
           check_rel s1 (checkAchievement s1 now AchievementMaster)
           \<and> keyed (checkAchievement s1 now AchievementMaster)
           \<and> ((\<forall>j. j \<noteq> AchievementMaster \<longrightarrow> settled s1 j)
                \<longrightarrow> (\<forall>j. settled (checkAchievement s1 now AchievementMaster) j))"
          using "2.IH" [OF Some False] unfolding s1_def unlocked_count_def .
        have r: "check_rel sys (checkAchievement s1 now AchievementMaster)"
          using check_rel_trans [OF u(1)] ih u(2) by blast
        have st: "(\<forall>j. j \<noteq> AchievementMaster \<longrightarrow> settled sys j)
                    \<longrightarrow> (\<forall>j. settled (checkAchievement s1 now AchievementMaster) j)"
          using u(3) ih u(2) by metis
        show ?thesis unfolding e using r ih u(2) st by blast
      qed
    qed
  qed
qed

lemma checkAchievement_keyed:
  assumes "keyed s"
  shows "check_rel s (checkAchievement s now i)" and "keyed (checkAchievement s now i)"
    and "(\<forall>j. j \<noteq> i \<longrightarrow> settled s j) \<Longrightarrow> settled (checkAchievement s now i) j"
  using check_both(1) [of s now i] assms by blast+

lemma checkAchievement_unlocked_noop:
  assumes "map_of (achievements s) i = Some a" and "Unlocked a"
  shows "checkAchievement s now i = s"
  using assms by (subst checkAchievement.simps) simp


subsection \<open>The achievement engine: handlers\<close>

lemma ids_distinct:
  "distinct [AchievementFirstWin, AchievementSpeedrun, AchievementEfficient,
             AchievementTimeAttackWin, AchievementPerfectGame, AchievementBridgeBuilder,
             AchievementIslandHopper, AchievementLevelCreator, AchievementDedicated,
             AchievementMaster]"
  by (simp add: AchievementFirstWin_def AchievementSpeedrun_def AchievementEfficient_def
      AchievementTimeAttackWin_def AchievementPerfectGame_def AchievementBridgeBuilder_def
      AchievementIslandHopper_def AchievementLevelCreator_def AchievementDedicated_def
      AchievementMaster_def)

lemma stat_bound_simps:
  "stat_bound st AchievementFirstWin = Some 1"
  "stat_bound st AchievementSpeedrun = Some 1"
  "stat_bound st AchievementTimeAttackWin = Some (TimeAttackWins st)"
  "stat_bound st AchievementPerfectGame = Some (PerfectGames st)"
  "stat_bound st AchievementBridgeBuilder = Some (BridgesBuilt st)"
  "stat_bound st AchievementIslandHopper = Some (GamesWon st)"
  "stat_bound st AchievementLevelCreator = Some (LevelsCreated st)"
  "stat_bound st AchievementDedicated = None"
  "stat_bound st AchievementMaster = None"
  using ids_distinct by (auto simp: stat_bound_def)

lemma handled_not_master: "i \<in> set handled_ids \<Longrightarrow> i \<noteq> AchievementMaster"
  using ids_distinct by (auto simp: handled_ids_def)

text \<open>The invariant, read through the map.\<close>

lemma sys_ok_iff:
  "sys_ok s \<longleftrightarrow>
     keyed s \<and> (\<forall>j. settled s j)
     \<and> (\<forall>i a b. map_of (achievements s) i = Some a \<longrightarrow> stat_bound (statistics s) i = Some b
            \<longrightarrow> Progress a \<le> b)
     \<and> (\<forall>i \<in> set handled_ids. map_of (achievements s) i \<noteq> None)
     \<and> 0 \<le> GamesWon (statistics s)"
proof (cases "distinct (map fst (achievements s))")
  case False
  then show ?thesis by (simp add: sys_ok_def keyed_def)
next
  case True
  have m: "map_of (achievements s) i = Some a \<longleftrightarrow> (i, a) \<in> set (achievements s)" for i a
    using True by simp
  have 1: "list_all (\<lambda>e. ID (snd e) = fst e) (achievements s)
             \<longleftrightarrow> (\<forall>i a. map_of (achievements s) i = Some a \<longrightarrow> ID a = i)"
    unfolding m list_all_iff by auto
  have 2: "list_all (\<lambda>e. Unlocked (snd e) \<or> Progress (snd e) < Target (snd e)) (achievements s)
             \<longleftrightarrow> (\<forall>j. settled s j)"
    unfolding m list_all_iff settled_def by (auto, blast)
  have 3: "list_all (\<lambda>e. case stat_bound (statistics s) (fst e) of
                      None \<Rightarrow> True | Some b \<Rightarrow> Progress (snd e) \<le> b) (achievements s)
             \<longleftrightarrow> (\<forall>i a b. map_of (achievements s) i = Some a
                     \<longrightarrow> stat_bound (statistics s) i = Some b \<longrightarrow> Progress a \<le> b)"
    unfolding m list_all_iff by (auto split: option.splits)
  have 4: "list_all (\<lambda>e. fst e \<noteq> AchievementMaster \<or> Unlocked (snd e)
                    \<or> Progress (snd e) \<le> unlocked_count (achievements s)) (achievements s)
             \<longleftrightarrow> (\<forall>i a. map_of (achievements s) i = Some a \<longrightarrow> i = AchievementMaster
                     \<longrightarrow> Unlocked a \<or> Progress a \<le> unlocked_count (achievements s))"
    unfolding m list_all_iff by auto
  have k: "keyed s \<longleftrightarrow> (\<forall>i a. map_of (achievements s) i = Some a \<longrightarrow> ID a = i)
             \<and> (\<forall>i a. map_of (achievements s) i = Some a \<longrightarrow> i = AchievementMaster
                     \<longrightarrow> Unlocked a \<or> Progress a \<le> unlocked_count (achievements s))"
    using True unfolding keyed_def by blast
  have 5: "list_all (\<lambda>i. map_of (achievements s) i \<noteq> None) handled_ids
             \<longleftrightarrow> (\<forall>i \<in> set handled_ids. map_of (achievements s) i \<noteq> None)"
    by (simp add: list_all_iff)
  show ?thesis
    unfolding sys_ok_def 1 2 3 4 5 k using True by (simp only: conj_ac simp_thms)
qed

lemma grows_refl: "grows s s"
  by (simp add: grows_def)

lemma grows_trans:
  assumes "grows s s'" and "grows s' s''"
  shows "grows s s''"
  unfolding grows_def
proof (intro conjI allI impI)
  show "listeners s'' = listeners s"
    "dom (map_of (achievements s'')) = dom (map_of (achievements s))"
    using assms by (simp_all add: grows_def)
next
  fix j a assume a: "map_of (achievements s) j = Some a"
  from assms(1) a obtain a' where a': "map_of (achievements s') j = Some a'"
    and e1: "Target a' = Target a" "Unlocked a \<longrightarrow> Unlocked a'"
      "j \<noteq> AchievementDedicated \<longrightarrow> Progress a \<le> Progress a'"
      "j \<noteq> AchievementDedicated \<and> \<not> Unlocked a \<and> Unlocked a' \<longrightarrow> Target a \<le> Progress a'"
    and d1: "deliveries s' j = deliveries s j
               @ (if \<not> Unlocked a \<and> Unlocked a' then listeners s else [])"
    unfolding grows_def by blast
  from assms(2) a' obtain a'' where a'': "map_of (achievements s'') j = Some a''"
    and e2: "Target a'' = Target a'" "Unlocked a' \<longrightarrow> Unlocked a''"
      "j \<noteq> AchievementDedicated \<longrightarrow> Progress a' \<le> Progress a''"
      "j \<noteq> AchievementDedicated \<and> \<not> Unlocked a' \<and> Unlocked a'' \<longrightarrow> Target a' \<le> Progress a''"
    and d2: "deliveries s'' j = deliveries s' j
               @ (if \<not> Unlocked a' \<and> Unlocked a'' then listeners s' else [])"
    unfolding grows_def by blast
  have l: "listeners s' = listeners s" using assms(1) by (simp add: grows_def)
  have d: "deliveries s'' j = deliveries s j
             @ (if \<not> Unlocked a \<and> Unlocked a'' then listeners s else [])"
    using d1 d2 l e1(2) e2(2) by (cases "Unlocked a"; cases "Unlocked a'") auto
  have u: "j \<noteq> AchievementDedicated \<and> \<not> Unlocked a \<and> Unlocked a'' \<longrightarrow> Target a \<le> Progress a''"
    using e1 e2 by (cases "Unlocked a'") auto
  show "\<exists>a'. map_of (achievements s'') j = Some a' \<and> Target a' = Target a
           \<and> (Unlocked a \<longrightarrow> Unlocked a')
           \<and> (j \<noteq> AchievementDedicated \<longrightarrow> Progress a \<le> Progress a')
           \<and> (j \<noteq> AchievementDedicated \<and> \<not> Unlocked a \<and> Unlocked a' \<longrightarrow> Target a \<le> Progress a')
           \<and> deliveries s'' j = deliveries s j
                @ (if \<not> Unlocked a \<and> Unlocked a' then listeners s else [])"
    using a'' e1 e2 d u by (intro exI [of _ a'']) auto
qed

text \<open>Raising counters keeps the invariant.\<close>

lemma stats_step:
  assumes ok: "sys_ok s"
    and b: "\<forall>i b. stat_bound (statistics s) i = Some b
              \<longrightarrow> (\<exists>b'. stat_bound st' i = Some b' \<and> b \<le> b')"
    and g: "0 \<le> GamesWon st'"
  shows "sys_ok (s\<lparr>statistics := st'\<rparr>)" and "grows s (s\<lparr>statistics := st'\<rparr>)"
proof -
  have nb: "stat_bound st' i = Some b' \<Longrightarrow> \<exists>b. stat_bound (statistics s) i = Some b" for i b'
    by (auto simp: stat_bound_def split: if_splits)
  have "\<forall>i a b'. map_of (achievements s) i = Some a \<longrightarrow> stat_bound st' i = Some b'
          \<longrightarrow> Progress a \<le> b'"
  proof (intro allI impI)
    fix i a b' assume a: "map_of (achievements s) i = Some a" and b': "stat_bound st' i = Some b'"
    from nb [OF b'] obtain b0 where b0: "stat_bound (statistics s) i = Some b0" by blast
    then have "Progress a \<le> b0" using ok a unfolding sys_ok_iff by blast
    moreover have "b0 \<le> b'" using b b0 b' by force
    ultimately show "Progress a \<le> b'" by simp
  qed
  then have b': "\<forall>i a b'. map_of (achievements (s\<lparr>statistics := st'\<rparr>)) i = Some a
          \<longrightarrow> stat_bound (statistics (s\<lparr>statistics := st'\<rparr>)) i = Some b' \<longrightarrow> Progress a \<le> b'"
    by simp
  from ok have k0: "keyed s" and s0: "\<forall>j. settled s j"
    and p0: "\<forall>i \<in> set handled_ids. map_of (achievements s) i \<noteq> None"
    unfolding sys_ok_iff by blast+
  have k': "keyed (s\<lparr>statistics := st'\<rparr>)" using k0 by (simp add: keyed_def)
  have s': "\<forall>j. settled (s\<lparr>statistics := st'\<rparr>) j" using s0 by (simp add: settled_def)
  have p': "\<forall>i \<in> set handled_ids. map_of (achievements (s\<lparr>statistics := st'\<rparr>)) i \<noteq> None"
    using p0 by simp
  have g': "0 \<le> GamesWon (statistics (s\<lparr>statistics := st'\<rparr>))" using g by simp
  show "sys_ok (s\<lparr>statistics := st'\<rparr>)"
    unfolding sys_ok_iff using k' s' b' p' g' by blast
  show "grows s (s\<lparr>statistics := st'\<rparr>)" by (simp add: grows_def deliveries_def)
qed

lemma check_settled_noop:
  assumes "settled s i"
  shows "checkAchievement s now i = s"
proof (cases "map_of (achievements s) i")
  case None
  then show ?thesis by (subst checkAchievement.simps) simp
next
  case (Some a)
  then have "Unlocked a \<or> Progress a < Target a" using assms by (simp add: settled_def)
  then show ?thesis using Some by (subst checkAchievement.simps) auto
qed


text \<open>
  Writing the progress of a handled id and checking it, as every handler does: the
  invariant is kept, the state has grown, and the entry holds the written progress and is
  unlocked exactly if it was unlocked before or the written progress reaches its target.
\<close>

lemma set_check_step:
  assumes ok: "sys_ok s" and h: "i \<in> set handled_ids"
    and v: "i \<noteq> AchievementDedicated \<longrightarrow> stat_bound (statistics s) i = Some v"
  shows "\<exists>s1 a a'. set_progress s i v = Returned s1
           \<and> sys_ok (checkAchievement s1 now i) \<and> grows s (checkAchievement s1 now i)
           \<and> statistics (checkAchievement s1 now i) = statistics s
           \<and> map_of (achievements s) i = Some a
           \<and> map_of (achievements (checkAchievement s1 now i)) i = Some a'
           \<and> Progress a' = v \<and> Target a' = Target a
           \<and> (Unlocked a' \<longleftrightarrow> Unlocked a \<or> Target a \<le> v)
           \<and> (i \<noteq> AchievementDedicated
                 \<longrightarrow> keeps s (checkAchievement s1 now i) AchievementDedicated)"
proof -
  from ok have k0: "keyed s" and st0: "\<forall>j. settled s j"
    and b0: "\<forall>j a b. map_of (achievements s) j = Some a \<longrightarrow> stat_bound (statistics s) j = Some b
               \<longrightarrow> Progress a \<le> b"
    and p0: "\<forall>j \<in> set handled_ids. map_of (achievements s) j \<noteq> None"
    and g0: "0 \<le> GamesWon (statistics s)"
    unfolding sys_ok_iff by blast+
  from p0 h obtain a where a: "map_of (achievements s) i = Some a" by blast
  have nm: "i \<noteq> AchievementMaster" using h by (rule handled_not_master)
  have ida: "ID a = i" using k0 a unfolding keyed_def by blast
  let ?a1 = "a\<lparr>Progress := v\<rparr>"
  define s1 where "s1 = s\<lparr>achievements := AList.update i ?a1 (achievements s)\<rparr>"
  have sp: "set_progress s i v = Returned s1" using a by (simp add: set_progress_def s1_def)
  have m1: "map_of (achievements s1) = (map_of (achievements s))(i \<mapsto> ?a1)"
    by (simp add: s1_def update_conv')
  have uc: "unlocked_count (achievements s1) = unlocked_count (achievements s)"
    using unlocked_count_update_same [OF a, of ?a1] by (simp add: s1_def)
  have k1: "keyed s1"
    unfolding keyed_def
  proof (intro conjI allI impI)
    show "distinct (map fst (achievements s1))"
      using k0 by (simp add: keyed_def s1_def distinct_update)
  next
    fix j b assume b: "map_of (achievements s1) j = Some b"
    show "ID b = j"
    proof (cases "j = i")
      case True
      then have "b = ?a1" using b m1 by simp
      then show ?thesis using True ida by simp
    next
      case False
      then have "map_of (achievements s) j = Some b" using b m1 by simp
      then show ?thesis using k0 unfolding keyed_def by blast
    qed
  next
    fix j b assume b: "map_of (achievements s1) j = Some b" and jm: "j = AchievementMaster"
    then have "map_of (achievements s) j = Some b" using m1 nm by simp
    then have "Unlocked b \<or> Progress b \<le> unlocked_count (achievements s)"
      using k0 jm unfolding keyed_def by blast
    then show "Unlocked b \<or> Progress b \<le> unlocked_count (achievements s1)" using uc by simp
  qed
  have st1: "\<forall>j. j \<noteq> i \<longrightarrow> settled s1 j" using st0 m1 by (simp add: settled_def)
  define s' where "s' = checkAchievement s1 now i"
  have "check_rel s1 s' \<and> keyed s' \<and> (\<forall>j. settled s' j)"
    using check_both(1) [of s1 now i] k1 st1 unfolding s'_def by blast
  then have cr: "check_rel s1 s'" and k': "keyed s'" and st': "\<forall>j. settled s' j"
    by blast+
  have ls: "listeners s' = listeners s" "statistics s' = statistics s"
    using cr by (simp_all add: check_rel_def s1_def)
  have dm: "dom (map_of (achievements s')) = dom (map_of (achievements s))"
    using cr m1 a unfolding check_rel_def by auto
  have d1: "deliveries s1 j = deliveries s j" for j by (simp add: deliveries_def s1_def)
  text \<open>every entry of the old state and its image in the new one\<close>
  have img: "\<exists>b'. map_of (achievements s') j = Some b' \<and> ID b' = ID b \<and> Target b' = Target b
                 \<and> (Unlocked b \<longrightarrow> Unlocked b')
                 \<and> (j \<noteq> AchievementMaster \<longrightarrow> Progress b' = (if j = i then v else Progress b))
                 \<and> (j = AchievementMaster \<longrightarrow> Progress b \<le> Progress b')
                 \<and> (\<not> Unlocked b \<and> Unlocked b' \<longrightarrow> Target b \<le> Progress b')
                 \<and> (j \<noteq> i \<and> j \<noteq> AchievementMaster \<longrightarrow> Unlocked b' = Unlocked b)
                 \<and> deliveries s' j = deliveries s j
                      @ (if \<not> Unlocked b \<and> Unlocked b' then listeners s else [])"
    if b: "map_of (achievements s) j = Some b" for j b
  proof -
    define b1 where "b1 = (if j = i then ?a1 else b)"
    have b1: "map_of (achievements s1) j = Some b1" using b a m1 by (simp add: b1_def)
    have f: "Target b1 = Target b" "Unlocked b1 = Unlocked b" "ID b1 = ID b"
      "Progress b1 = (if j = i then v else Progress b)"
      using a b by (auto simp: b1_def)
    from cr b1 obtain b' where b': "map_of (achievements s') j = Some b'"
      and e: "ID b' = ID b1" "Target b' = Target b1" "Unlocked b1 \<longrightarrow> b' = b1"
        "j \<noteq> AchievementMaster \<longrightarrow> Progress b' = Progress b1" "Progress b1 \<le> Progress b'"
        "\<not> Unlocked b1 \<and> Unlocked b' \<longrightarrow> Target b1 \<le> Progress b'"
        "deliveries s' j = deliveries s1 j
           @ (if \<not> Unlocked b1 \<and> Unlocked b' then listeners s1 else [])"
      unfolding check_rel_def by blast
    have l1: "listeners s1 = listeners s" by (simp add: s1_def)
    have pm: "j = AchievementMaster \<longrightarrow> Progress b \<le> Progress b'" using e(5) f(4) nm by auto
    have sj: "j \<noteq> i \<longrightarrow> Unlocked b1 \<or> Progress b1 < Target b1"
      using st1 b1 unfolding settled_def by blast
    have ku: "j \<noteq> i \<and> j \<noteq> AchievementMaster \<longrightarrow> Unlocked b' = Unlocked b"
      using sj e(3,4,6) f(2) by (cases "Unlocked b1") auto
    show ?thesis
      using b' e f d1 [of j] l1 pm ku by (intro exI [of _ b']) auto
  qed
  from img [OF a] obtain a' where a': "map_of (achievements s') i = Some a'"
    and ea: "Target a' = Target a" "Unlocked a \<longrightarrow> Unlocked a'" "Progress a' = v"
      "\<not> Unlocked a \<and> Unlocked a' \<longrightarrow> Target a \<le> Progress a'"
    using nm by auto
  have "Unlocked a' \<or> Progress a' < Target a'" using st' a' unfolding settled_def by blast
  then have ua: "Unlocked a' \<longleftrightarrow> Unlocked a \<or> Target a \<le> v" using ea by auto
  have bnd: "\<forall>j b' c. map_of (achievements s') j = Some b' \<longrightarrow> stat_bound (statistics s') j = Some c
               \<longrightarrow> Progress b' \<le> c"
  proof (intro allI impI)
    fix j b' c assume b': "map_of (achievements s') j = Some b'"
      and c: "stat_bound (statistics s') j = Some c"
    have "j \<in> dom (map_of (achievements s))" using b' dm by auto
    then obtain b where b: "map_of (achievements s) j = Some b" by auto
    have jm: "j \<noteq> AchievementMaster" using c by (auto simp: stat_bound_simps)
    from img [OF b] b' jm have p: "Progress b' = (if j = i then v else Progress b)" by auto
    have c0: "stat_bound (statistics s) j = Some c" using c ls by simp
    show "Progress b' \<le> c"
    proof (cases "j = i")
      case True
      then have "i \<noteq> AchievementDedicated" using c0 by (auto simp: stat_bound_simps)
      then show ?thesis using v c0 p True by simp
    next
      case False
      then show ?thesis using p b0 b c0 by auto
    qed
  qed
  have pres: "\<forall>j \<in> set handled_ids. map_of (achievements s') j \<noteq> None"
  proof
    fix j assume "j \<in> set handled_ids"
    then have "j \<in> dom (map_of (achievements s))" using p0 by auto
    then show "map_of (achievements s') j \<noteq> None" using dm by auto
  qed
  have ok': "sys_ok s'"
    unfolding sys_ok_iff using k' st' bnd pres g0 ls by simp
  have gr: "grows s s'"
    unfolding grows_def
  proof (intro conjI allI impI)
    show "listeners s' = listeners s" using ls by simp
    show "dom (map_of (achievements s')) = dom (map_of (achievements s))" using dm .
  next
    fix j b assume b: "map_of (achievements s) j = Some b"
    from img [OF b] obtain b' where b': "map_of (achievements s') j = Some b'"
      and e: "Target b' = Target b" "Unlocked b \<longrightarrow> Unlocked b'"
        "j \<noteq> AchievementMaster \<longrightarrow> Progress b' = (if j = i then v else Progress b)"
        "j = AchievementMaster \<longrightarrow> Progress b \<le> Progress b'"
        "\<not> Unlocked b \<and> Unlocked b' \<longrightarrow> Target b \<le> Progress b'"
        "deliveries s' j = deliveries s j
           @ (if \<not> Unlocked b \<and> Unlocked b' then listeners s else [])"
      by blast
    have mono: "j \<noteq> AchievementDedicated \<longrightarrow> Progress b \<le> Progress b'"
    proof (cases "j = i")
      case True
      then have "b = a" using a b by simp
      then show ?thesis using True v b0 a e(3) nm by auto
    next
      case False
      then show ?thesis using e(3,4) by (cases "j = AchievementMaster") auto
    qed
    show "\<exists>a'. map_of (achievements s') j = Some a' \<and> Target a' = Target b
           \<and> (Unlocked b \<longrightarrow> Unlocked a')
           \<and> (j \<noteq> AchievementDedicated \<longrightarrow> Progress b \<le> Progress a')
           \<and> (j \<noteq> AchievementDedicated \<and> \<not> Unlocked b \<and> Unlocked a' \<longrightarrow> Target b \<le> Progress a')
           \<and> deliveries s' j = deliveries s j
                @ (if \<not> Unlocked b \<and> Unlocked a' then listeners s else [])"
      using b' e mono by (intro exI [of _ b']) simp
  qed
  have kp: "i \<noteq> AchievementDedicated \<longrightarrow> keeps s s' AchievementDedicated"
  proof
    assume ni: "i \<noteq> AchievementDedicated"
    have dm: "AchievementDedicated \<noteq> AchievementMaster"
      by (simp add: AchievementDedicated_def AchievementMaster_def)
    show "keeps s s' AchievementDedicated"
      unfolding keeps_def
    proof (intro allI impI)
      fix b assume b: "map_of (achievements s) AchievementDedicated = Some b"
      from img [OF b] obtain b' where
        "map_of (achievements s') AchievementDedicated = Some b'"
        "AchievementDedicated \<noteq> AchievementMaster
           \<longrightarrow> Progress b' = (if AchievementDedicated = i then v else Progress b)"
        "AchievementDedicated \<noteq> i \<and> AchievementDedicated \<noteq> AchievementMaster
           \<longrightarrow> Unlocked b' = Unlocked b"
        by blast
      then show "\<exists>a'. map_of (achievements s') AchievementDedicated = Some a'
                   \<and> Unlocked a' = Unlocked b \<and> Progress a' = Progress b"
        using ni dm by auto
    qed
  qed
  show ?thesis
    apply (rule exI [of _ s1])
    apply (rule exI [of _ a])
    apply (rule exI [of _ a'])
    using sp ok' gr ls(2) a a' ea(1,3) ua kp unfolding s'_def apply simp
    done
qed

lemma keeps_refl: "keeps s s j"
  by (simp add: keeps_def)

lemma keeps_trans:
  assumes "keeps s s' j" and "keeps s' s'' j"
  shows "keeps s s'' j"
  unfolding keeps_def
proof (intro allI impI)
  fix a assume "map_of (achievements s) j = Some a"
  with assms(1) obtain a' where a': "map_of (achievements s') j = Some a'"
    "Unlocked a' = Unlocked a" "Progress a' = Progress a"
    unfolding keeps_def by blast
  with assms(2) obtain a'' where "map_of (achievements s'') j = Some a''"
    "Unlocked a'' = Unlocked a'" "Progress a'' = Progress a'"
    unfolding keeps_def by blast
  then show "\<exists>a'. map_of (achievements s'') j = Some a' \<and> Unlocked a' = Unlocked a
               \<and> Progress a' = Progress a"
    using a' by simp
qed

lemma keeps_ded_rel:
  assumes "keeps s s' AchievementDedicated"
  shows "ded_rel s s'"
  unfolding ded_rel_def
proof (intro allI impI)
  fix a assume "map_of (achievements s) AchievementDedicated = Some a"
  with assms obtain a' where "map_of (achievements s') AchievementDedicated = Some a'"
    "Unlocked a' = Unlocked a" "Progress a' = Progress a"
    unfolding keeps_def by blast
  then show "\<exists>a'. map_of (achievements s') AchievementDedicated = Some a'
               \<and> (\<not> Unlocked a \<and> Unlocked a' \<longrightarrow> Target a \<le> Progress a')
               \<and> (Progress a' = Progress a \<or> Progress a' = PlayStreak (statistics s'))"
    by simp
qed

lemma counters_fit_iff:
  "counters_fit st n \<longleftrightarrow>
     - (2 ^ 63) \<le> GamesWon st \<and> GamesWon st + int n < 2 ^ 63
     \<and> - (2 ^ 63) \<le> TimeAttackWins st \<and> TimeAttackWins st + int n < 2 ^ 63
     \<and> - (2 ^ 63) \<le> PerfectGames st \<and> PerfectGames st + int n < 2 ^ 63
     \<and> - (2 ^ 63) \<le> BridgesBuilt st \<and> BridgesBuilt st + int n < 2 ^ 63
     \<and> - (2 ^ 63) \<le> LevelsCreated st \<and> LevelsCreated st + int n < 2 ^ 63"
  by (simp add: counters_fit_def)

lemma i64_succ:
  assumes "- (2 ^ 63) \<le> c" and "c + int (Suc n) < 2 ^ 63"
  shows "i64 (c + 1) = c + 1"
  using assms by (intro i64_id) simp_all



lemma stat_bound_mono:
  assumes "TimeAttackWins st \<le> TimeAttackWins st'" and "PerfectGames st \<le> PerfectGames st'"
    and "BridgesBuilt st \<le> BridgesBuilt st'" and "GamesWon st \<le> GamesWon st'"
    and "LevelsCreated st \<le> LevelsCreated st'"
  shows "\<forall>i b. stat_bound st i = Some b \<longrightarrow> (\<exists>b'. stat_bound st' i = Some b' \<and> b \<le> b')"
  using assms by (auto simp: stat_bound_def)

text \<open>The shape shared by the handlers: raise counters, write one progress, check it.\<close>

lemma handler_step:
  assumes ok: "sys_ok s"
    and c: "TimeAttackWins (statistics s) \<le> TimeAttackWins st'"
      "PerfectGames (statistics s) \<le> PerfectGames st'"
      "BridgesBuilt (statistics s) \<le> BridgesBuilt st'"
      "GamesWon (statistics s) \<le> GamesWon st'"
      "LevelsCreated (statistics s) \<le> LevelsCreated st'"
    and h: "i \<in> set handled_ids"
    and v: "i \<noteq> AchievementDedicated \<longrightarrow> stat_bound st' i = Some v"
  shows "\<exists>s'. bind_out (set_progress (s\<lparr>statistics := st'\<rparr>) i v)
                 (\<lambda>s1. Returned (checkAchievement s1 now i)) = Returned s'
           \<and> sys_ok s' \<and> grows s s' \<and> statistics s' = st'
           \<and> (i \<noteq> AchievementDedicated \<longrightarrow> keeps s s' AchievementDedicated)
           \<and> (i = AchievementDedicated \<and> v = PlayStreak st' \<longrightarrow> ded_rel s s')"
proof -
  have g: "0 \<le> GamesWon st'" using ok c(4) unfolding sys_ok_iff by simp
  note s0 = stats_step [OF ok stat_bound_mono [OF c] g]
  have v0: "i \<noteq> AchievementDedicated \<longrightarrow> stat_bound (statistics (s\<lparr>statistics := st'\<rparr>)) i = Some v"
    using v by simp
  from set_check_step [OF s0(1) h v0, of now] obtain s1 a a' where
    sp: "set_progress (s\<lparr>statistics := st'\<rparr>) i v = Returned s1"
    and ok': "sys_ok (checkAchievement s1 now i)"
    and gr: "grows (s\<lparr>statistics := st'\<rparr>) (checkAchievement s1 now i)"
    and st: "statistics (checkAchievement s1 now i) = statistics (s\<lparr>statistics := st'\<rparr>)"
    and a: "map_of (achievements (s\<lparr>statistics := st'\<rparr>)) i = Some a"
    and a': "map_of (achievements (checkAchievement s1 now i)) i = Some a'"
    and pa: "Progress a' = v" "Target a' = Target a" "Unlocked a' \<longleftrightarrow> Unlocked a \<or> Target a \<le> v"
    and kp: "i \<noteq> AchievementDedicated
               \<longrightarrow> keeps (s\<lparr>statistics := st'\<rparr>) (checkAchievement s1 now i) AchievementDedicated"
    by blast
  define s' where "s' = checkAchievement s1 now i"
  have k0: "keeps s (s\<lparr>statistics := st'\<rparr>) AchievementDedicated" by (simp add: keeps_def)
  have k: "i \<noteq> AchievementDedicated \<longrightarrow> keeps s s' AchievementDedicated"
    using kp keeps_trans [OF k0] unfolding s'_def by blast
  have d: "i = AchievementDedicated \<and> v = PlayStreak st' \<longrightarrow> ded_rel s s'"
  proof
    assume iv: "i = AchievementDedicated \<and> v = PlayStreak st'"
    show "ded_rel s s'"
      unfolding ded_rel_def
    proof (intro allI impI)
      fix b assume b: "map_of (achievements s) AchievementDedicated = Some b"
      then have ba: "b = a" using a iv by simp
      have a2: "map_of (achievements s') AchievementDedicated = Some a'"
        using a' iv by (simp add: s'_def)
      have p2: "Progress a' = PlayStreak (statistics s')" using pa(1) iv st by (simp add: s'_def)
      have u2: "\<not> Unlocked b \<and> Unlocked a' \<longrightarrow> Target b \<le> Progress a'" using pa ba by auto
      show "\<exists>a'. map_of (achievements s') AchievementDedicated = Some a'
               \<and> (\<not> Unlocked b \<and> Unlocked a' \<longrightarrow> Target b \<le> Progress a')
               \<and> (Progress a' = Progress b \<or> Progress a' = PlayStreak (statistics s'))"
        using a2 p2 u2 by (intro exI [of _ a']) simp
    qed
  qed
  have g': "grows s s'" using grows_trans [OF s0(2) gr] by (simp add: s'_def)
  have r: "bind_out (set_progress (s\<lparr>statistics := st'\<rparr>) i v)
             (\<lambda>s1. Returned (checkAchievement s1 now i)) = Returned s'"
    using sp by (simp add: s'_def)
  have st': "statistics s' = st'" using st by (simp add: s'_def)
  have ok2: "sys_ok s'" using ok' by (simp add: s'_def)
  show ?thesis using r ok2 g' st' k d by blast
qed

lemma not_dedicated:
  "AchievementFirstWin \<noteq> AchievementDedicated"
  "AchievementSpeedrun \<noteq> AchievementDedicated"
  "AchievementTimeAttackWin \<noteq> AchievementDedicated"
  "AchievementPerfectGame \<noteq> AchievementDedicated"
  "AchievementBridgeBuilder \<noteq> AchievementDedicated"
  "AchievementIslandHopper \<noteq> AchievementDedicated"
  "AchievementLevelCreator \<noteq> AchievementDedicated"
  using ids_distinct by auto

lemma OnBridgeBuilt_ok:
  assumes ok: "sys_ok s" and fit: "counters_fit (statistics s) (Suc n)"
  shows "\<exists>s'. OnBridgeBuilt s now = Returned s' \<and> sys_ok s' \<and> grows s s' \<and> ded_rel s s'
           \<and> counters_fit (statistics s') n"
proof -
  have e: "i64 (BridgesBuilt (statistics s) + 1) = BridgesBuilt (statistics s) + 1"
    using fit by (intro i64_succ [of _ n]) (simp_all add: counters_fit_iff)
  let ?st = "(statistics s)\<lparr>BridgesBuilt := BridgesBuilt (statistics s) + 1\<rparr>"
  have h: "AchievementBridgeBuilder \<in> set handled_ids" by (simp add: handled_ids_def)
  have v: "AchievementBridgeBuilder \<noteq> AchievementDedicated
             \<longrightarrow> stat_bound ?st AchievementBridgeBuilder = Some (BridgesBuilt (statistics s) + 1)"
    by (simp add: stat_bound_simps)
  have "\<exists>s'. bind_out (set_progress (s\<lparr>statistics := ?st\<rparr>) AchievementBridgeBuilder
                        (BridgesBuilt (statistics s) + 1))
                 (\<lambda>s1. Returned (checkAchievement s1 now AchievementBridgeBuilder)) = Returned s'
           \<and> sys_ok s' \<and> grows s s' \<and> statistics s' = ?st
           \<and> (AchievementBridgeBuilder \<noteq> AchievementDedicated \<longrightarrow> keeps s s' AchievementDedicated)
           \<and> (AchievementBridgeBuilder = AchievementDedicated
                \<and> BridgesBuilt (statistics s) + 1 = PlayStreak ?st \<longrightarrow> ded_rel s s')"
    by (rule handler_step [OF ok _ _ _ _ _ h v]) simp_all
  then obtain s' where
    r: "bind_out (set_progress (s\<lparr>statistics := ?st\<rparr>) AchievementBridgeBuilder
                        (BridgesBuilt (statistics s) + 1))
                 (\<lambda>s1. Returned (checkAchievement s1 now AchievementBridgeBuilder)) = Returned s'"
    and k: "sys_ok s'" "grows s s'" "statistics s' = ?st" "keeps s s' AchievementDedicated"
    using not_dedicated by blast
  have f': "counters_fit (statistics s') n" using fit k(3) by (simp add: counters_fit_iff)
  have "OnBridgeBuilt s now = Returned s'" using r unfolding OnBridgeBuilt_def Let_def e .
  then show ?thesis using k(1,2) keeps_ded_rel [OF k(4)] f' by blast
qed

lemma OnLevelCreated_ok:
  assumes ok: "sys_ok s" and fit: "counters_fit (statistics s) (Suc n)"
  shows "\<exists>s'. OnLevelCreated s now = Returned s' \<and> sys_ok s' \<and> grows s s' \<and> ded_rel s s'
           \<and> counters_fit (statistics s') n"
proof -
  have e: "i64 (LevelsCreated (statistics s) + 1) = LevelsCreated (statistics s) + 1"
    using fit by (intro i64_succ [of _ n]) (simp_all add: counters_fit_iff)
  let ?st = "(statistics s)\<lparr>LevelsCreated := LevelsCreated (statistics s) + 1\<rparr>"
  have h: "AchievementLevelCreator \<in> set handled_ids" by (simp add: handled_ids_def)
  have v: "AchievementLevelCreator \<noteq> AchievementDedicated
             \<longrightarrow> stat_bound ?st AchievementLevelCreator = Some (LevelsCreated (statistics s) + 1)"
    by (simp add: stat_bound_simps)
  have "\<exists>s'. bind_out (set_progress (s\<lparr>statistics := ?st\<rparr>) AchievementLevelCreator
                        (LevelsCreated (statistics s) + 1))
                 (\<lambda>s1. Returned (checkAchievement s1 now AchievementLevelCreator)) = Returned s'
           \<and> sys_ok s' \<and> grows s s' \<and> statistics s' = ?st
           \<and> (AchievementLevelCreator \<noteq> AchievementDedicated \<longrightarrow> keeps s s' AchievementDedicated)
           \<and> (AchievementLevelCreator = AchievementDedicated
                \<and> LevelsCreated (statistics s) + 1 = PlayStreak ?st \<longrightarrow> ded_rel s s')"
    by (rule handler_step [OF ok _ _ _ _ _ h v]) simp_all
  then obtain s' where
    r: "bind_out (set_progress (s\<lparr>statistics := ?st\<rparr>) AchievementLevelCreator
                        (LevelsCreated (statistics s) + 1))
                 (\<lambda>s1. Returned (checkAchievement s1 now AchievementLevelCreator)) = Returned s'"
    and k: "sys_ok s'" "grows s s'" "statistics s' = ?st" "keeps s s' AchievementDedicated"
    using not_dedicated by blast
  have f': "counters_fit (statistics s') n" using fit k(3) by (simp add: counters_fit_iff)
  have "OnLevelCreated s now = Returned s'" using r unfolding OnLevelCreated_def Let_def e .
  then show ?thesis using k(1,2) keeps_ded_rel [OF k(4)] f' by blast
qed

text \<open>The statistics \<open>OnGameStart\<close> stores.\<close>

lemma OnGameStart_ok:
  assumes ok: "sys_ok s" and fit: "counters_fit (statistics s) (Suc n)"
  shows "\<exists>s'. OnGameStart s now = Returned s' \<and> sys_ok s' \<and> grows s s' \<and> ded_rel s s'
           \<and> counters_fit (statistics s') n
           \<and> GamesPlayed (statistics s') = i64 (GamesPlayed (statistics s) + 1)
           \<and> LastPlayDate (statistics s') = Some now
           \<and> PlayStreak (statistics s')
               = (case LastPlayDate (statistics s) of
                    None \<Rightarrow> 1
                  | Some lastPlay \<Rightarrow>
                      if daysSince lastPlay now = 1 then i64 (PlayStreak (statistics s) + 1)
                      else if daysSince lastPlay now > 1 then 1
                      else PlayStreak (statistics s))"
proof -
  define st1 where "st1 = (statistics s)\<lparr>GamesPlayed := i64 (GamesPlayed (statistics s) + 1)\<rparr>"
  define st2 where "st2 = (case LastPlayDate st1 of
                   Some lastPlay \<Rightarrow>
                     if daysSince lastPlay now = 1 then st1\<lparr>PlayStreak := i64 (PlayStreak st1 + 1)\<rparr>
                     else if daysSince lastPlay now > 1 then st1\<lparr>PlayStreak := 1\<rparr>
                     else st1
                 | None \<Rightarrow> st1\<lparr>PlayStreak := 1\<rparr>)"
  define st3 where "st3 = st2\<lparr>LastPlayDate := Some now\<rparr>"
  have same: "TimeAttackWins st3 = TimeAttackWins (statistics s)"
    "PerfectGames st3 = PerfectGames (statistics s)"
    "BridgesBuilt st3 = BridgesBuilt (statistics s)"
    "GamesWon st3 = GamesWon (statistics s)"
    "LevelsCreated st3 = LevelsCreated (statistics s)"
    "GamesPlayed st3 = i64 (GamesPlayed (statistics s) + 1)"
    "LastPlayDate st3 = Some now"
    by (simp_all add: st3_def st2_def st1_def split: option.splits)
  have streak: "PlayStreak st3 = (case LastPlayDate (statistics s) of
                    None \<Rightarrow> 1
                  | Some lastPlay \<Rightarrow>
                      if daysSince lastPlay now = 1 then i64 (PlayStreak (statistics s) + 1)
                      else if daysSince lastPlay now > 1 then 1
                      else PlayStreak (statistics s))"
    by (simp add: st3_def st2_def st1_def split: option.splits)
  have h: "AchievementDedicated \<in> set handled_ids" by (simp add: handled_ids_def)
  have v: "AchievementDedicated \<noteq> AchievementDedicated
             \<longrightarrow> stat_bound st3 AchievementDedicated = Some (PlayStreak st3)"
    by simp
  have "\<exists>s'. bind_out (set_progress (s\<lparr>statistics := st3\<rparr>) AchievementDedicated (PlayStreak st3))
                 (\<lambda>s1. Returned (checkAchievement s1 now AchievementDedicated)) = Returned s'
           \<and> sys_ok s' \<and> grows s s' \<and> statistics s' = st3
           \<and> (AchievementDedicated \<noteq> AchievementDedicated \<longrightarrow> keeps s s' AchievementDedicated)
           \<and> (AchievementDedicated = AchievementDedicated \<and> PlayStreak st3 = PlayStreak st3
                \<longrightarrow> ded_rel s s')"
    by (rule handler_step [OF ok _ _ _ _ _ h v]) (simp_all add: same)
  then obtain s' where
    r: "bind_out (set_progress (s\<lparr>statistics := st3\<rparr>) AchievementDedicated (PlayStreak st3))
          (\<lambda>s1. Returned (checkAchievement s1 now AchievementDedicated)) = Returned s'"
    and k: "sys_ok s'" "grows s s'" "statistics s' = st3" "ded_rel s s'"
    by blast
  have f': "counters_fit (statistics s') n" using fit k(3) same by (simp add: counters_fit_iff)
  have "OnGameStart s now = Returned s'"
    using r unfolding OnGameStart_def Let_def st3_def st2_def st1_def .
  then show ?thesis using k f' same streak by simp
qed

lemma OnGameWin_ok:
  assumes ok: "sys_ok s" and fit: "counters_fit (statistics s) (Suc n)"
  shows "\<exists>s'. OnGameWin s now moves gameTime isTimeAttack isPerfect = Returned s'
           \<and> sys_ok s' \<and> grows s s' \<and> ded_rel s s' \<and> counters_fit (statistics s') n"
proof -
  define st1 where "st1 = (statistics s)\<lparr>GamesWon := i64 (GamesWon (statistics s) + 1),
                   TotalMoves := i64 (TotalMoves (statistics s) + moves),
                   TotalTime := i64 (TotalTime (statistics s) + gameTime)\<rparr>"
  define st2 where "st2 = (if BestTime st1 = 0 \<or> gameTime < BestTime st1
                           then st1\<lparr>BestTime := gameTime\<rparr> else st1)"
  define st3 where "st3 = (if moves < FewestMoves st2 then st2\<lparr>FewestMoves := moves\<rparr> else st2)"
  define sys1 where "sys1 = s\<lparr>statistics := st3\<rparr>"
  have eW: "i64 (GamesWon (statistics s) + 1) = GamesWon (statistics s) + 1"
    using fit by (intro i64_succ [of _ n]) (simp_all add: counters_fit_iff)
  have c3: "TimeAttackWins st3 = TimeAttackWins (statistics s)"
    "PerfectGames st3 = PerfectGames (statistics s)"
    "BridgesBuilt st3 = BridgesBuilt (statistics s)"
    "GamesWon st3 = GamesWon (statistics s) + 1"
    "LevelsCreated st3 = LevelsCreated (statistics s)"
    by (simp_all add: st3_def st2_def st1_def eW)
  have g0: "0 \<le> GamesWon (statistics s)" using ok unfolding sys_ok_iff by blast
  have ok1: "sys_ok sys1" and gr1: "grows s sys1"
    unfolding sys1_def
    using stats_step [OF ok stat_bound_mono, of st3] c3 g0 by simp_all
  have kp1: "keeps s sys1 AchievementDedicated" by (simp add: keeps_def sys1_def)
  have s1st: "statistics sys1 = st3" by (simp add: sys1_def)
  text \<open>the time-attack block\<close>
  define blockA where "blockA =
        (if isTimeAttack then
           (let n = i64 (TimeAttackWins (statistics sys1) + 1) in
            bind_out (set_progress (sys1\<lparr>statistics := (statistics sys1)\<lparr>TimeAttackWins := n\<rparr>\<rparr>)
                        AchievementTimeAttackWin n)
              (\<lambda>s. Returned (checkAchievement s now AchievementTimeAttackWin)))
         else Returned sys1)"
  have eA: "i64 (TimeAttackWins (statistics sys1) + 1) = TimeAttackWins (statistics sys1) + 1"
    using fit by (intro i64_succ [of _ n]) (simp_all add: counters_fit_iff s1st c3)
  have "\<exists>sys2. blockA = Returned sys2 \<and> sys_ok sys2 \<and> grows sys1 sys2
          \<and> keeps sys1 sys2 AchievementDedicated
          \<and> statistics sys2 = (if isTimeAttack
                then (statistics sys1)\<lparr>TimeAttackWins := TimeAttackWins (statistics sys1) + 1\<rparr>
                else statistics sys1)"
  proof (cases isTimeAttack)
    case False
    then show ?thesis using ok1 grows_refl keeps_refl by (simp add: blockA_def)
  next
    case True
    let ?st = "(statistics sys1)\<lparr>TimeAttackWins := TimeAttackWins (statistics sys1) + 1\<rparr>"
    have h: "AchievementTimeAttackWin \<in> set handled_ids" by (simp add: handled_ids_def)
    have v: "AchievementTimeAttackWin \<noteq> AchievementDedicated
               \<longrightarrow> stat_bound ?st AchievementTimeAttackWin = Some (TimeAttackWins (statistics sys1) + 1)"
      by (simp add: stat_bound_simps)
    have "\<exists>s'. bind_out (set_progress (sys1\<lparr>statistics := ?st\<rparr>) AchievementTimeAttackWin
                          (TimeAttackWins (statistics sys1) + 1))
                   (\<lambda>s1. Returned (checkAchievement s1 now AchievementTimeAttackWin)) = Returned s'
             \<and> sys_ok s' \<and> grows sys1 s' \<and> statistics s' = ?st
             \<and> (AchievementTimeAttackWin \<noteq> AchievementDedicated
                  \<longrightarrow> keeps sys1 s' AchievementDedicated)
             \<and> (AchievementTimeAttackWin = AchievementDedicated
                  \<and> TimeAttackWins (statistics sys1) + 1 = PlayStreak ?st \<longrightarrow> ded_rel sys1 s')"
      by (rule handler_step [OF ok1 _ _ _ _ _ h v]) simp_all
    then obtain s' where
      "bind_out (set_progress (sys1\<lparr>statistics := ?st\<rparr>) AchievementTimeAttackWin
                          (TimeAttackWins (statistics sys1) + 1))
                   (\<lambda>s1. Returned (checkAchievement s1 now AchievementTimeAttackWin)) = Returned s'"
      "sys_ok s'" "grows sys1 s'" "statistics s' = ?st" "keeps sys1 s' AchievementDedicated"
      using not_dedicated by blast
    then show ?thesis using True unfolding blockA_def Let_def eA by simp
  qed
  then obtain sys2 where a2: "blockA = Returned sys2" and ok2: "sys_ok sys2"
    and gr2: "grows sys1 sys2" and kp2: "keeps sys1 sys2 AchievementDedicated"
    and st2s: "statistics sys2 = (if isTimeAttack
                then (statistics sys1)\<lparr>TimeAttackWins := TimeAttackWins (statistics sys1) + 1\<rparr>
                else statistics sys1)"
    by blast
  have c2: "PerfectGames (statistics sys2) = PerfectGames (statistics s)"
    "BridgesBuilt (statistics sys2) = BridgesBuilt (statistics s)"
    "GamesWon (statistics sys2) = GamesWon (statistics s) + 1"
    "LevelsCreated (statistics sys2) = LevelsCreated (statistics s)"
    "TimeAttackWins (statistics sys2) \<le> TimeAttackWins (statistics s) + 1"
    "TimeAttackWins (statistics s) \<le> TimeAttackWins (statistics sys2)"
    using c3 by (simp_all add: st2s s1st)
  text \<open>the perfect-game block\<close>
  define blockP where "blockP =
        (if isPerfect then
           (let n = i64 (PerfectGames (statistics sys2) + 1) in
            bind_out (set_progress (sys2\<lparr>statistics := (statistics sys2)\<lparr>PerfectGames := n\<rparr>\<rparr>)
                        AchievementPerfectGame n)
              (\<lambda>s. Returned (checkAchievement (checkAchievement s now AchievementPerfectGame)
                                now AchievementEfficient)))
         else Returned sys2)"
  have eP: "i64 (PerfectGames (statistics sys2) + 1) = PerfectGames (statistics sys2) + 1"
    using fit by (intro i64_succ [of _ n]) (simp_all add: counters_fit_iff c2)
  have "\<exists>sys3. blockP = Returned sys3 \<and> sys_ok sys3 \<and> grows sys2 sys3
          \<and> keeps sys2 sys3 AchievementDedicated
          \<and> statistics sys3 = (if isPerfect
                then (statistics sys2)\<lparr>PerfectGames := PerfectGames (statistics sys2) + 1\<rparr>
                else statistics sys2)"
  proof (cases isPerfect)
    case False
    then show ?thesis using ok2 grows_refl keeps_refl by (simp add: blockP_def)
  next
    case True
    let ?st = "(statistics sys2)\<lparr>PerfectGames := PerfectGames (statistics sys2) + 1\<rparr>"
    have h: "AchievementPerfectGame \<in> set handled_ids" by (simp add: handled_ids_def)
    have v: "AchievementPerfectGame \<noteq> AchievementDedicated
               \<longrightarrow> stat_bound ?st AchievementPerfectGame = Some (PerfectGames (statistics sys2) + 1)"
      by (simp add: stat_bound_simps)
    have "\<exists>s'. bind_out (set_progress (sys2\<lparr>statistics := ?st\<rparr>) AchievementPerfectGame
                          (PerfectGames (statistics sys2) + 1))
                   (\<lambda>s1. Returned (checkAchievement s1 now AchievementPerfectGame)) = Returned s'
             \<and> sys_ok s' \<and> grows sys2 s' \<and> statistics s' = ?st
             \<and> (AchievementPerfectGame \<noteq> AchievementDedicated
                  \<longrightarrow> keeps sys2 s' AchievementDedicated)
             \<and> (AchievementPerfectGame = AchievementDedicated
                  \<and> PerfectGames (statistics sys2) + 1 = PlayStreak ?st \<longrightarrow> ded_rel sys2 s')"
      by (rule handler_step [OF ok2 _ _ _ _ _ h v]) simp_all
    then obtain s1 s' where sp: "set_progress (sys2\<lparr>statistics := ?st\<rparr>) AchievementPerfectGame
                          (PerfectGames (statistics sys2) + 1) = Returned s1"
      and s': "s' = checkAchievement s1 now AchievementPerfectGame"
      and k: "sys_ok s'" "grows sys2 s'" "statistics s' = ?st"
        "keeps sys2 s' AchievementDedicated"
      using not_dedicated
      by (cases "set_progress (sys2\<lparr>statistics := ?st\<rparr>) AchievementPerfectGame
                          (PerfectGames (statistics sys2) + 1)") auto
    have "settled s' AchievementEfficient" using k(1) unfolding sys_ok_iff by blast
    then have "checkAchievement s' now AchievementEfficient = s'" by (rule check_settled_noop)
    then have "blockP = Returned s'" using True sp s' by (simp add: blockP_def Let_def eP)
    then show ?thesis using k True by simp
  qed
  then obtain sys3 where a3: "blockP = Returned sys3" and ok3: "sys_ok sys3"
    and gr3: "grows sys2 sys3" and kp3: "keeps sys2 sys3 AchievementDedicated"
    and st3s: "statistics sys3 = (if isPerfect
                then (statistics sys2)\<lparr>PerfectGames := PerfectGames (statistics sys2) + 1\<rparr>
                else statistics sys2)"
    by blast
  have c4s: "BridgesBuilt (statistics sys3) = BridgesBuilt (statistics s)"
    "GamesWon (statistics sys3) = GamesWon (statistics s) + 1"
    "LevelsCreated (statistics sys3) = LevelsCreated (statistics s)"
    "TimeAttackWins (statistics sys3) \<le> TimeAttackWins (statistics s) + 1"
    "TimeAttackWins (statistics s) \<le> TimeAttackWins (statistics sys3)"
    "PerfectGames (statistics sys3) \<le> PerfectGames (statistics s) + 1"
    "PerfectGames (statistics s) \<le> PerfectGames (statistics sys3)"
    using c2 by (simp_all add: st3s)
  have f3: "counters_fit (statistics sys3) n"
    using fit c4s unfolding counters_fit_iff by simp
  text \<open>first win\<close>
  have m1: "min_go 1 (GamesWon (statistics sys3)) = 1" using c4s(2) g0 by (simp add: min_go_def)
  have h4: "AchievementFirstWin \<in> set handled_ids" by (simp add: handled_ids_def)
  have v4: "AchievementFirstWin \<noteq> AchievementDedicated
              \<longrightarrow> stat_bound (statistics sys3) AchievementFirstWin = Some 1"
    by (simp add: stat_bound_simps)
  from set_check_step [OF ok3 h4 v4, of now] obtain sys4 where
    sp4: "set_progress sys3 AchievementFirstWin 1 = Returned sys4"
    and ok4: "sys_ok (checkAchievement sys4 now AchievementFirstWin)"
    and gr4: "grows sys3 (checkAchievement sys4 now AchievementFirstWin)"
    and st4: "statistics (checkAchievement sys4 now AchievementFirstWin) = statistics sys3"
    and kp4: "keeps sys3 (checkAchievement sys4 now AchievementFirstWin) AchievementDedicated"
    using not_dedicated by blast
  have st4': "statistics sys4 = statistics sys3"
    using sp4 by (auto simp: set_progress_def split: option.splits)
  define c4 where "c4 = checkAchievement sys4 now AchievementFirstWin"
  text \<open>total wins\<close>
  have h5: "AchievementIslandHopper \<in> set handled_ids" by (simp add: handled_ids_def)
  have v5: "AchievementIslandHopper \<noteq> AchievementDedicated
              \<longrightarrow> stat_bound (statistics c4) AchievementIslandHopper = Some (GamesWon (statistics sys4))"
    using st4 st4' by (simp add: stat_bound_simps c4_def)
  from set_check_step [OF ok4 [folded c4_def] h5 v5, of now] obtain sys5 where
    sp5: "set_progress c4 AchievementIslandHopper (GamesWon (statistics sys4)) = Returned sys5"
    and ok5: "sys_ok (checkAchievement sys5 now AchievementIslandHopper)"
    and gr5: "grows c4 (checkAchievement sys5 now AchievementIslandHopper)"
    and st5: "statistics (checkAchievement sys5 now AchievementIslandHopper) = statistics c4"
    and kp5: "keeps c4 (checkAchievement sys5 now AchievementIslandHopper) AchievementDedicated"
    using not_dedicated by blast
  define sys6 where "sys6 = checkAchievement sys5 now AchievementIslandHopper"
  text \<open>speed\<close>
  define blockS where "blockS =
       (if gameTime < 30 * 1000000000 then
         bind_out (set_progress sys6 AchievementSpeedrun 1)
           (\<lambda>s. Returned (checkAchievement s now AchievementSpeedrun))
       else Returned sys6)"
  have "\<exists>s'. blockS = Returned s' \<and> sys_ok s' \<and> grows sys6 s'
          \<and> keeps sys6 s' AchievementDedicated \<and> statistics s' = statistics sys6"
  proof (cases "gameTime < 30 * 1000000000")
    case False
    then show ?thesis using ok5 grows_refl keeps_refl by (simp add: blockS_def sys6_def)
  next
    case True
    have h: "AchievementSpeedrun \<in> set handled_ids" by (simp add: handled_ids_def)
    have v: "AchievementSpeedrun \<noteq> AchievementDedicated
               \<longrightarrow> stat_bound (statistics sys6) AchievementSpeedrun = Some 1"
      by (simp add: stat_bound_simps)
    from set_check_step [OF ok5 [folded sys6_def] h v, of now] obtain s7 where
      "set_progress sys6 AchievementSpeedrun 1 = Returned s7"
      "sys_ok (checkAchievement s7 now AchievementSpeedrun)"
      "grows sys6 (checkAchievement s7 now AchievementSpeedrun)"
      "statistics (checkAchievement s7 now AchievementSpeedrun) = statistics sys6"
      "keeps sys6 (checkAchievement s7 now AchievementSpeedrun) AchievementDedicated"
      using not_dedicated by blast
    then show ?thesis using True by (simp add: blockS_def)
  qed
  then obtain s' where a7: "blockS = Returned s'" and ok7: "sys_ok s'" and gr7: "grows sys6 s'"
    and kp7: "keeps sys6 s' AchievementDedicated" and st7: "statistics s' = statistics sys6"
    by blast
  have "grows s s'"
    using gr1 gr2 gr3 gr4 [folded c4_def] gr5 [folded sys6_def] gr7 grows_trans by blast
  moreover have "keeps s s' AchievementDedicated"
    using kp1 kp2 kp3 kp4 [folded c4_def] kp5 [folded sys6_def] kp7 keeps_trans by blast
  then have "ded_rel s s'" by (rule keeps_ded_rel)
  moreover have "statistics s' = statistics sys3"
    using st7 st5 [folded sys6_def] st4 [folded c4_def] by simp
  then have "counters_fit (statistics s') n" using f3 by simp
  moreover have "OnGameWin s now moves gameTime isTimeAttack isPerfect = Returned s'"
    unfolding OnGameWin_def Let_def
    unfolding st1_def [symmetric] st2_def [symmetric] st3_def [symmetric] sys1_def [symmetric]
    unfolding blockA_def [unfolded Let_def, symmetric] a2 bind_out_simps
    unfolding blockP_def [unfolded Let_def, symmetric] a3 bind_out_simps
    unfolding m1 sp4 bind_out_simps c4_def [symmetric] sp5 sys6_def [symmetric]
    unfolding blockS_def [symmetric] a7
    by (rule refl)
  ultimately show ?thesis using ok7 by blast
qed

lemma handle_event_ok:
  assumes "sys_ok s" and "counters_fit (statistics s) (Suc n)"
  shows "\<exists>s'. handle_event s e = Returned s' \<and> sys_ok s' \<and> grows s s' \<and> ded_rel s s'
           \<and> counters_fit (statistics s') n"
proof (cases e)
  case (GameStart now)
  then show ?thesis using OnGameStart_ok [OF assms, of now] by auto
next
  case (GameWin now moves gameTime isTimeAttack isPerfect)
  then show ?thesis using OnGameWin_ok [OF assms, of now moves gameTime isTimeAttack isPerfect] by auto
next
  case (BridgeBuilt now)
  then show ?thesis using OnBridgeBuilt_ok [OF assms, of now] by auto
next
  case (LevelCreated now)
  then show ?thesis using OnLevelCreated_ok [OF assms, of now] by auto
qed

lemma run_events_ok:
  assumes "sys_ok s" and "counters_fit (statistics s) (length evs + k)"
  shows "\<exists>s'. run_events s evs = Returned s' \<and> sys_ok s' \<and> grows s s'
           \<and> counters_fit (statistics s') k"
  using assms
proof (induction evs arbitrary: s)
  case Nil
  then show ?case using grows_refl by simp
next
  case (Cons e evs)
  have f: "counters_fit (statistics s) (Suc (length evs + k))" using Cons.prems(2) by simp
  from handle_event_ok [OF Cons.prems(1) f, of e] obtain s1 where
    h: "handle_event s e = Returned s1" and ok1: "sys_ok s1" and g1: "grows s s1"
    and f1: "counters_fit (statistics s1) (length evs + k)" by blast
  from Cons.IH [OF ok1 f1] obtain s' where
    r: "run_events s1 evs = Returned s'" and ok': "sys_ok s'" and g': "grows s1 s'"
    and f': "counters_fit (statistics s') k" by blast
  have "run_events s (e # evs) = Returned s'" using h r by simp
  then show ?case using ok' grows_trans [OF g1 g'] f' by blast
qed

lemma run_events_append:
  "run_events s (pre @ post) = bind_out (run_events s pre) (\<lambda>s1. run_events s1 post)"
proof (induction pre arbitrary: s)
  case Nil
  then show ?case by simp
next
  case (Cons e pre)
  then show ?case by (cases "handle_event s e") simp_all
qed

lemma sys_ok_OnAchievementUnlocked:
  "sys_ok s \<Longrightarrow> sys_ok (OnAchievementUnlocked s callback)"
  by (simp add: sys_ok_def OnAchievementUnlocked_def del: map_of_eq_Some_iff)

subsection \<open>Claims about the achievement engine\<close>

text \<open>
  C7 (as amended). Take any state of a session (a state that satisfies \<open>sys_ok\<close>, as
  \<open>NewAchievementSystem\<close> does before and after listeners are registered) and any
  sequence of handler calls from it that is short enough for the counters behind the
  achievements not to wrap at 64 bits (\<open>counters_fit\<close>). The sequence returns without a
  panic. Between its first and last state, for every achievement id: the target is
  unchanged; the progress counter has not decreased, unless the id is the streak-based
  \<open>Dedicated\<close> achievement; unlocked stays unlocked; an achievement that is still locked
  has progress below its target; the registered listeners have been called for the id
  exactly once each, in registration order, if the flag flipped during the sequence, and
  not at all if it did not; and re-evaluating an achievement that is already unlocked
  changes nothing. In every single call of the sequence, for every achievement id, the
  \<open>Dedicated\<close> achievement included: the achievement is unlocked after the call exactly
  if it was unlocked before or its progress after the call has reached its target, so
  it becomes unlocked only with its progress at or past the target; its progress has not
  decreased, or it is the \<open>Dedicated\<close> achievement and its progress is the play streak
  the call stored; and the listeners are called once each, in registration order, in
  the call in which the flag flips and in no other.
\<close>

theorem C7_progress_and_unlocks:
  assumes "sys_ok sys" and "counters_fit (statistics sys) (length evs)"
  shows "\<exists>sys'. run_events sys evs = Returned sys' \<and> sys_ok sys'
           \<and> listeners sys' = listeners sys
           \<and> (\<forall>i a. map_of (achievements sys) i = Some a \<longrightarrow>
                 (\<exists>a'. map_of (achievements sys') i = Some a' \<and> Target a' = Target a
                    \<and> (i \<noteq> AchievementDedicated \<longrightarrow> Progress a \<le> Progress a')
                    \<and> (Unlocked a \<longrightarrow> Unlocked a')
                    \<and> (\<not> Unlocked a' \<longrightarrow> Progress a' < Target a')
                    \<and> (i \<noteq> AchievementDedicated \<and> \<not> Unlocked a \<and> Unlocked a'
                          \<longrightarrow> Target a \<le> Progress a')
                    \<and> deliveries sys' i = deliveries sys i
                         @ (if \<not> Unlocked a \<and> Unlocked a' then listeners sys else [])
                    \<and> (Unlocked a \<longrightarrow> (\<forall>now. checkAchievement sys now i = sys))))
           \<and> (\<forall>pre e post. evs = pre @ e # post \<longrightarrow>
                 (\<exists>s1 s2. run_events sys pre = Returned s1 \<and> handle_event s1 e = Returned s2
                    \<and> run_events s2 post = Returned sys'
                    \<and> (\<forall>i a1. map_of (achievements s1) i = Some a1 \<longrightarrow>
                          (\<exists>a2. map_of (achievements s2) i = Some a2 \<and> Target a2 = Target a1
                             \<and> (Unlocked a2 \<longleftrightarrow> Unlocked a1 \<or> Target a1 \<le> Progress a2)
                             \<and> (Progress a1 \<le> Progress a2
                                  \<or> i = AchievementDedicated
                                      \<and> Progress a2 = PlayStreak (statistics s2))
                             \<and> deliveries s2 i = deliveries s1 i
                                  @ (if \<not> Unlocked a1 \<and> Unlocked a2 then listeners sys else [])))))"
proof -
  have f0: "counters_fit (statistics sys) (length evs + 0)" using assms(2) by simp
  from run_events_ok [OF assms(1) f0] obtain sys' where
    r: "run_events sys evs = Returned sys'" and ok': "sys_ok sys'" and g: "grows sys sys'"
    by blast
  have l: "listeners sys' = listeners sys" using g by (simp add: grows_def)
  have e: "\<exists>a'. map_of (achievements sys') i = Some a' \<and> Target a' = Target a
                    \<and> (i \<noteq> AchievementDedicated \<longrightarrow> Progress a \<le> Progress a')
                    \<and> (Unlocked a \<longrightarrow> Unlocked a')
                    \<and> (\<not> Unlocked a' \<longrightarrow> Progress a' < Target a')
                    \<and> (i \<noteq> AchievementDedicated \<and> \<not> Unlocked a \<and> Unlocked a'
                          \<longrightarrow> Target a \<le> Progress a')
                    \<and> deliveries sys' i = deliveries sys i
                         @ (if \<not> Unlocked a \<and> Unlocked a' then listeners sys else [])
                    \<and> (Unlocked a \<longrightarrow> (\<forall>now. checkAchievement sys now i = sys))"
    if a: "map_of (achievements sys) i = Some a" for i a
  proof -
    from g a obtain a' where a': "map_of (achievements sys') i = Some a'"
      and k: "Target a' = Target a" "Unlocked a \<longrightarrow> Unlocked a'"
        "i \<noteq> AchievementDedicated \<longrightarrow> Progress a \<le> Progress a'"
        "i \<noteq> AchievementDedicated \<and> \<not> Unlocked a \<and> Unlocked a' \<longrightarrow> Target a \<le> Progress a'"
        "deliveries sys' i = deliveries sys i
           @ (if \<not> Unlocked a \<and> Unlocked a' then listeners sys else [])"
      unfolding grows_def by blast
    have "settled sys' i" using ok' unfolding sys_ok_iff by blast
    then have st: "\<not> Unlocked a' \<longrightarrow> Progress a' < Target a'"
      using a' unfolding settled_def by blast
    have n: "Unlocked a \<longrightarrow> (\<forall>now. checkAchievement sys now i = sys)"
      using checkAchievement_unlocked_noop [OF a] by blast
    show ?thesis using a' k st n by (intro exI [of _ a']) simp
  qed
  have c: "\<exists>s1 s2. run_events sys pre = Returned s1 \<and> handle_event s1 ev = Returned s2
                    \<and> run_events s2 post = Returned sys'
                    \<and> (\<forall>i a1. map_of (achievements s1) i = Some a1 \<longrightarrow>
                          (\<exists>a2. map_of (achievements s2) i = Some a2 \<and> Target a2 = Target a1
                             \<and> (Unlocked a2 \<longleftrightarrow> Unlocked a1 \<or> Target a1 \<le> Progress a2)
                             \<and> (Progress a1 \<le> Progress a2
                                  \<or> i = AchievementDedicated
                                      \<and> Progress a2 = PlayStreak (statistics s2))
                             \<and> deliveries s2 i = deliveries s1 i
                                  @ (if \<not> Unlocked a1 \<and> Unlocked a2 then listeners sys else [])))"
    if sp: "evs = pre @ ev # post" for pre ev post
  proof -
    have f1: "counters_fit (statistics sys) (length pre + Suc (length post))"
      using assms(2) sp by simp
    from run_events_ok [OF assms(1) f1] obtain s1 where
      r1: "run_events sys pre = Returned s1" and ok1: "sys_ok s1" and g1: "grows sys s1"
      and fit1: "counters_fit (statistics s1) (Suc (length post))" by blast
    from handle_event_ok [OF ok1 fit1, of ev] obtain s2 where
      r2: "handle_event s1 ev = Returned s2" and ok2: "sys_ok s2" and g2: "grows s1 s2"
      and d2: "ded_rel s1 s2" and fit2: "counters_fit (statistics s2) (length post)" by blast
    have fit2': "counters_fit (statistics s2) (length post + 0)" using fit2 by simp
    from run_events_ok [OF ok2 fit2'] obtain s3 where
      r3: "run_events s2 post = Returned s3" by blast
    have "run_events sys evs = Returned s3"
      unfolding sp run_events_append using r1 r2 r3 by simp
    then have s3: "s3 = sys'" using r by simp
    have l1: "listeners s1 = listeners sys" using g1 by (simp add: grows_def)
    have per: "\<exists>a2. map_of (achievements s2) i = Some a2 \<and> Target a2 = Target a1
                             \<and> (Unlocked a2 \<longleftrightarrow> Unlocked a1 \<or> Target a1 \<le> Progress a2)
                             \<and> (Progress a1 \<le> Progress a2
                                  \<or> i = AchievementDedicated
                                      \<and> Progress a2 = PlayStreak (statistics s2))
                             \<and> deliveries s2 i = deliveries s1 i
                                  @ (if \<not> Unlocked a1 \<and> Unlocked a2 then listeners sys else [])"
      if a1: "map_of (achievements s1) i = Some a1" for i a1
    proof -
      from g2 a1 obtain a2 where a2: "map_of (achievements s2) i = Some a2"
        and k: "Target a2 = Target a1" "Unlocked a1 \<longrightarrow> Unlocked a2"
          "i \<noteq> AchievementDedicated \<longrightarrow> Progress a1 \<le> Progress a2"
          "i \<noteq> AchievementDedicated \<and> \<not> Unlocked a1 \<and> Unlocked a2 \<longrightarrow> Target a1 \<le> Progress a2"
          "deliveries s2 i = deliveries s1 i
             @ (if \<not> Unlocked a1 \<and> Unlocked a2 then listeners s1 else [])"
        unfolding grows_def by blast
      have "settled s2 i" using ok2 unfolding sys_ok_iff by blast
      then have st: "\<not> Unlocked a2 \<longrightarrow> Progress a2 < Target a2"
        using a2 unfolding settled_def by blast
      have dd: "i = AchievementDedicated \<longrightarrow>
                  (\<not> Unlocked a1 \<and> Unlocked a2 \<longrightarrow> Target a1 \<le> Progress a2)
                  \<and> (Progress a2 = Progress a1 \<or> Progress a2 = PlayStreak (statistics s2))"
      proof
        assume i: "i = AchievementDedicated"
        from d2 a1 i obtain b where "map_of (achievements s2) AchievementDedicated = Some b"
          "\<not> Unlocked a1 \<and> Unlocked b \<longrightarrow> Target a1 \<le> Progress b"
          "Progress b = Progress a1 \<or> Progress b = PlayStreak (statistics s2)"
          unfolding ded_rel_def by blast
        moreover from this(1) a2 i have "b = a2" by simp
        ultimately show "(\<not> Unlocked a1 \<and> Unlocked a2 \<longrightarrow> Target a1 \<le> Progress a2)
                  \<and> (Progress a2 = Progress a1 \<or> Progress a2 = PlayStreak (statistics s2))"
          by simp
      qed
      have u: "Unlocked a2 \<longleftrightarrow> Unlocked a1 \<or> Target a1 \<le> Progress a2"
        using k(1,2,4) st dd by (cases "i = AchievementDedicated") auto
      have p: "Progress a1 \<le> Progress a2
                 \<or> i = AchievementDedicated \<and> Progress a2 = PlayStreak (statistics s2)"
        using k(3) dd by (cases "i = AchievementDedicated") auto
      show ?thesis using a2 k(1,5) u p l1 by (intro exI [of _ a2]) simp
    qed
    show ?thesis
      using r1 r2 r3 s3 per by (intro exI [of _ s1] exI [of _ s2]) simp
  qed
  show ?thesis
    using r ok' l e c by (intro exI [of _ sys']) blast
qed

theorem C7_progress_and_unlocks_witness:
  "sys_ok (OnAchievementUnlocked (OnAchievementUnlocked NewAchievementSystem 0) 1)
   \<and> counters_fit (statistics (OnAchievementUnlocked (OnAchievementUnlocked NewAchievementSystem 0) 1))
       (length (replicate 100 (BridgeBuilt 0)))
   \<and> (case run_events (OnAchievementUnlocked (OnAchievementUnlocked NewAchievementSystem 0) 1)
               (replicate 99 (BridgeBuilt 0)) of
          Panicked \<Rightarrow> False
        | Returned s \<Rightarrow>
            map_option Unlocked (map_of (achievements s) AchievementBridgeBuilder) = Some False
            \<and> map_option Progress (map_of (achievements s) AchievementBridgeBuilder) = Some 99
            \<and> deliveries s AchievementBridgeBuilder = [])
   \<and> (case run_events (OnAchievementUnlocked (OnAchievementUnlocked NewAchievementSystem 0) 1)
               (replicate 100 (BridgeBuilt 0)) of
          Panicked \<Rightarrow> False
        | Returned s \<Rightarrow>
            map_option Unlocked (map_of (achievements s) AchievementBridgeBuilder) = Some True
            \<and> map_option Progress (map_of (achievements s) AchievementBridgeBuilder) = Some 100
            \<and> deliveries s AchievementBridgeBuilder = [0, 1])
   \<and> (case run_events (OnAchievementUnlocked (OnAchievementUnlocked NewAchievementSystem 0) 1)
               (replicate 101 (BridgeBuilt 0)) of
          Panicked \<Rightarrow> False
        | Returned s \<Rightarrow>
            map_option Unlocked (map_of (achievements s) AchievementBridgeBuilder) = Some True
            \<and> map_option Progress (map_of (achievements s) AchievementBridgeBuilder) = Some 101
            \<and> deliveries s AchievementBridgeBuilder = [0, 1])"
proof -
  let ?s0 = "OnAchievementUnlocked (OnAchievementUnlocked NewAchievementSystem 0) 1"
  have ok: "sys_ok ?s0" by code_simp
  have fit: "counters_fit (statistics ?s0) (length (replicate 100 (BridgeBuilt 0)))" by code_simp
  have e99: "(case run_events ?s0 (replicate 99 (BridgeBuilt 0)) of
          Panicked \<Rightarrow> False
        | Returned s \<Rightarrow>
            map_option Unlocked (map_of (achievements s) AchievementBridgeBuilder) = Some False
            \<and> map_option Progress (map_of (achievements s) AchievementBridgeBuilder) = Some 99
            \<and> deliveries s AchievementBridgeBuilder = [])"
    by code_simp
  have e100: "(case run_events ?s0 (replicate 100 (BridgeBuilt 0)) of
          Panicked \<Rightarrow> False
        | Returned s \<Rightarrow>
            map_option Unlocked (map_of (achievements s) AchievementBridgeBuilder) = Some True
            \<and> map_option Progress (map_of (achievements s) AchievementBridgeBuilder) = Some 100
            \<and> deliveries s AchievementBridgeBuilder = [0, 1])"
    by code_simp
  have e101: "(case run_events ?s0 (replicate 101 (BridgeBuilt 0)) of
          Panicked \<Rightarrow> False
        | Returned s \<Rightarrow>
            map_option Unlocked (map_of (achievements s) AchievementBridgeBuilder) = Some True
            \<and> map_option Progress (map_of (achievements s) AchievementBridgeBuilder) = Some 101
            \<and> deliveries s AchievementBridgeBuilder = [0, 1])"
    by code_simp
  from C7_progress_and_unlocks [OF ok fit] have
    "\<exists>sys'. run_events ?s0 (replicate 100 (BridgeBuilt 0)) = Returned sys' \<and> sys_ok sys'"
    by blast
  then show ?thesis
    using ok fit e99 e100 e101 by blast
qed

text \<open>
  C7 as stated fails for the streak-based achievement. Two game starts one day apart
  bring its progress to 2, and a third one three days later resets the streak and with
  it the progress to 1. Seven game starts on seven days in a row unlock it with progress
  7; a start three days later leaves it unlocked with progress 1, below its target.
\<close>

theorem C7_counterexample:
  "progress_after [GameStart 0, GameStart day_ns] AchievementDedicated = Some 2
   \<and> progress_after [GameStart 0, GameStart day_ns, GameStart (4 * day_ns)] AchievementDedicated
       = Some 1
   \<and> progress_after
       [GameStart 0, GameStart day_ns, GameStart (2 * day_ns), GameStart (3 * day_ns),
        GameStart (4 * day_ns), GameStart (5 * day_ns), GameStart (6 * day_ns)]
       AchievementDedicated = Some 7
   \<and> unlocked_after
       [GameStart 0, GameStart day_ns, GameStart (2 * day_ns), GameStart (3 * day_ns),
        GameStart (4 * day_ns), GameStart (5 * day_ns), GameStart (6 * day_ns)]
       AchievementDedicated = Some True
   \<and> progress_after
       [GameStart 0, GameStart day_ns, GameStart (2 * day_ns), GameStart (3 * day_ns),
        GameStart (4 * day_ns), GameStart (5 * day_ns), GameStart (6 * day_ns),
        GameStart (9 * day_ns)]
       AchievementDedicated = Some 1
   \<and> unlocked_after
       [GameStart 0, GameStart day_ns, GameStart (2 * day_ns), GameStart (3 * day_ns),
        GameStart (4 * day_ns), GameStart (5 * day_ns), GameStart (6 * day_ns),
        GameStart (9 * day_ns)]
       AchievementDedicated = Some True"
  by code_simp

text \<open>
  C8, the code at two inputs. \<open>OnGameStart\<close> counts whole 24-hour periods between the
  two clock readings, not calendar days. A start at 20:00 of day 0 and one at 19:00 of
  day 1 are one calendar day apart, yet the streak stays 1. A start at 23:59 of day 0
  and one at 00:01 of day 2 are two calendar days apart, yet the streak grows to 2.
\<close>

theorem C8_streak_counts_24h_periods:
  "streak_after [GameStart (20 * hour_ns)] = Some 1
   \<and> calendar_day (43 * hour_ns) - calendar_day (20 * hour_ns) = 1
   \<and> daysSince (20 * hour_ns) (43 * hour_ns) = 0
   \<and> streak_after [GameStart (20 * hour_ns), GameStart (43 * hour_ns)] = Some 1
   \<and> streak_after [GameStart (24 * hour_ns - 60000000000)] = Some 1
   \<and> calendar_day (48 * hour_ns + 60000000000) - calendar_day (24 * hour_ns - 60000000000) = 2
   \<and> daysSince (24 * hour_ns - 60000000000) (48 * hour_ns + 60000000000) = 1
   \<and> streak_after [GameStart (24 * hour_ns - 60000000000), GameStart (48 * hour_ns + 60000000000)]
       = Some 2"
  by code_simp

end
